theory Spec2Isabelle
  imports Main
begin

section \<open>The operating system as seen by one connection\<close>

text \<open>
  \<^verbatim>\<open>unresponsive.c\<close> talks to its peer through system calls. The embedding makes the
  answers of the operating system an explicit script, one list per call, consumed from
  the front, and records what the program does in a trace.

  \<^item> \<open>clock\<close>: the values returned by the calls of \<^verbatim>\<open>time(NULL)\<close> that
    \<^verbatim>\<open>respond_slowly\<close> makes itself, in order. The call inside \<^verbatim>\<open>dolog\<close> only
    feeds the timestamp prefix of a log line, which the trace does not carry. When the
    list is used up the run has no value (\<open>None\<close>): the script was too short.
  \<^item> \<open>selects\<close>: the outcomes of \<^verbatim>\<open>select\<close>: return value 1, return value 0, or -1
    with \<^verbatim>\<open>errno\<close>. A script that is used up means that the wait times out.
  \<^item> \<open>reads\<close>: what \<^verbatim>\<open>read\<close> finds: bytes queued on the socket (no bytes: end of
    file, \<^verbatim>\<open>read\<close> returns 0) or -1 with \<^verbatim>\<open>errno\<close>. \<^verbatim>\<open>read\<close> returns at most
    the count it is asked for; the bytes it leaves stay queued. A script that is used up
    means \<^verbatim>\<open>EAGAIN\<close> (the socket is non-blocking).
  \<^item> \<open>writes\<close>: what \<^verbatim>\<open>write\<close> does: it takes up to so many bytes, or fails with
    \<^verbatim>\<open>errno\<close>. A script that is used up means that everything is taken.

  The trace also records the call of \<^verbatim>\<open>gethostbyaddr\<close> (line 96), which blocks for as
  long as the resolver takes: the time it takes shows in the clock reading that follows.

  \<^verbatim>\<open>time_t\<close> and \<^verbatim>\<open>long\<close> are \<open>int\<close> here (64 bits in the C, where signed
  overflow has no defined result); the conversion of a difference of times to the
  32-bit \<^verbatim>\<open>int remaining\<close> is written out as \<open>to_int32\<close>.
\<close>

datatype errno = EINTR | EAGAIN | ECONNRESET | EPIPE | EIO

datatype select_result = Readable | TimedOut | SelectErr errno

datatype read_result = Bytes "char list" | ReadErr errno

datatype write_result = Accept nat | WriteErr errno

text \<open>
  The log lines, by their format: \<open>LogEof\<close> is the line \<^verbatim>\<open>EOF\<close> (line 129, and
  line 183 where the format ends with one more newline), \<open>RequestLine\<close> the line of
  line 150 with the text it prints.
\<close>

datatype logmsg =
    Connected
  | LogEof
  | Received int
  | RequestLine string
  | Sent503
  | Remaining int
  | Closed
  | ReadFailed errno
  | SelectFailed errno
  | WriteFailed errno

datatype event =
    Clock int
  | Lookup
  | Info logmsg
  | Error logmsg
  | Nonblock
  | Select int
  | Recv "char list"
  | Drained read_result
  | Sent "char list"
  | Sleep int
  | Shutdown
  | Close

record world =
  clock :: "int list"
  selects :: "select_result list"
  reads :: "read_result list"
  writes :: "write_result list"
  trace :: "event list"

definition emit :: "event \<Rightarrow> world \<Rightarrow> world" where
  "emit e w = w\<lparr>trace := trace w @ [e]\<rparr>"

definition time_call :: "world \<Rightarrow> (int \<times> world) option" where
  "time_call w =
     (case clock w of
        [] \<Rightarrow> None
      | t # ts \<Rightarrow> Some (t, w\<lparr>clock := ts, trace := trace w @ [Clock t]\<rparr>))"

definition select_call :: "int \<Rightarrow> world \<Rightarrow> select_result \<times> world" where
  "select_call timeout w =
     (case selects w of
        [] \<Rightarrow> (TimedOut, emit (Select timeout) w)
      | r # rs \<Rightarrow> (r, emit (Select timeout) (w\<lparr>selects := rs\<rparr>)))"

definition read_call :: "int \<Rightarrow> world \<Rightarrow> read_result \<times> world" where
  "read_call count w =
     (case reads w of
        [] \<Rightarrow> (ReadErr EAGAIN, w)
      | ReadErr e # rs \<Rightarrow> (ReadErr e, w\<lparr>reads := rs\<rparr>)
      | Bytes bs # rs \<Rightarrow>
          (Bytes (take (nat count) bs),
           w\<lparr>reads := (if drop (nat count) bs = [] then rs
                        else Bytes (drop (nat count) bs) # rs)\<rparr>))"

definition to_int32 :: "int \<Rightarrow> int" where
  "to_int32 x = (x + 2147483648) mod 4294967296 - 2147483648"

section \<open>The log\<close>

text \<open>
  \<^verbatim>\<open>dolog\<close> (lines 29-39) builds every log line in \<^verbatim>\<open>char buf[512]\<close>:
  \<^verbatim>\<open>strftime\<close> writes the time as \<^verbatim>\<open>[hh:mm:ss]\<close>, 10 bytes; \<^verbatim>\<open>sprintf\<close> adds a
  space, the process id in brackets and a space; \<^verbatim>\<open>vsprintf\<close> adds the text of the
  line and a NUL byte, with no look at the room that is left. The line fits when the
  prefix, the text and the NUL byte are at most 512 bytes; the newline then takes the
  place of the NUL byte. When the line does not fit, \<^verbatim>\<open>vsprintf\<close> writes beyond the
  array: the behaviour of the program is undefined from there on. Built with the stack
  protector that the compilers of the usual Linux distributions turn on, the process is
  killed before \<^verbatim>\<open>dolog\<close> returns. The model ends the run where the array is
  overrun, with the trace up to there; whether the line that is too long still reaches
  the log is left open.
\<close>

fun decimal :: "nat \<Rightarrow> string" where
  "decimal n =
     (if n < 10 then [char_of (48 + n)]
      else decimal (n div 10) @ [char_of (48 + n mod 10)])"

declare decimal.simps [simp del]

definition LOGSZ :: nat where
  "LOGSZ = 512"

definition log_prefix :: "nat \<Rightarrow> nat" where
  "log_prefix p = 10 + length ('' ['' @ decimal p @ ''] '')"

definition log_fits :: "nat \<Rightarrow> string \<Rightarrow> bool" where
  "log_fits p text \<longleftrightarrow> log_prefix p + length text + 1 \<le> LOGSZ"

section \<open>writestr\<close>

text \<open>
  \<^verbatim>\<open>writestr\<close> (lines 63-82) loops until the whole string is written. \<^verbatim>\<open>EINTR\<close> and
  \<^verbatim>\<open>EAGAIN\<close> are retried, any other error is logged and gives -1. The loop runs over
  the script of \<^verbatim>\<open>write\<close> outcomes; it returns the value of \<^verbatim>\<open>writestr\<close>, the rest of
  the script and the events.
\<close>

fun writestr_loop :: "char list \<Rightarrow> write_result list \<Rightarrow> int \<times> write_result list \<times> event list" where
  "writestr_loop str [] = (0, [], if str = [] then [] else [Sent str])"
| "writestr_loop str (r # rs) =
     (if str = [] then (0, r # rs, [])
      else (case r of
          WriteErr e \<Rightarrow>
            if e = EINTR \<or> e = EAGAIN then writestr_loop str rs
            else (- 1, rs, [Error (WriteFailed e)])
        | Accept room \<Rightarrow>
            (case writestr_loop (drop (min room (length str)) str) rs of
               (ret, rest, evs) \<Rightarrow> (ret, rest, Sent (take (min room (length str)) str) # evs))))"

definition writestr :: "char list \<Rightarrow> world \<Rightarrow> int \<times> world" where
  "writestr str w =
     (case writestr_loop str (writes w) of
        (ret, rest, evs) \<Rightarrow> (ret, w\<lparr>writes := rest, trace := trace w @ evs\<rparr>))"

section \<open>The connection\<close>

text \<open>
  What the handler of a connection holds: the id of its process, which \<^verbatim>\<open>dolog\<close>
  asks for at every line, and the locals of \<^verbatim>\<open>respond_slowly\<close>. \<^verbatim>\<open>char name[256]\<close> is
  the string that line 97 leaves in it; \<^verbatim>\<open>char buf[4096]\<close> is a function from index to
  byte (the array is not initialised: its first contents are a parameter), \<^verbatim>\<open>used\<close>
  the count of held bytes, \<^verbatim>\<open>http\<close> and \<^verbatim>\<open>eof\<close> the two flags (C ints used as truth
  values).
\<close>

record conn =
  pid :: nat
  name :: string
  buf :: "nat \<Rightarrow> char"
  used :: int
  http :: bool
  eof :: bool

definition BUFSZ :: int where
  "BUFSZ = 4096"

definition store :: "nat \<Rightarrow> char list \<Rightarrow> (nat \<Rightarrow> char) \<Rightarrow> (nat \<Rightarrow> char)" where
  "store p bs b = (\<lambda>i. if p \<le> i \<and> i < p + length bs then bs ! (i - p) else b i)"

definition held :: "conn \<Rightarrow> char list" where
  "held c = map (buf c) [0..<nat (used c)]"

definition CR :: char where "CR = CHR 0x0D"
definition LF :: char where "LF = CHR 0x0A"
definition NUL :: char where "NUL = CHR 0x00"

definition http10 :: "char list" where "http10 = ''HTTP/1.0'' @ [CR, LF]"
definition http11 :: "char list" where "http11 = ''HTTP/1.1'' @ [CR, LF]"

definition hello :: "char list" where
  "hello = ''Hello, world!'' @ [CR, LF]"
definition status503 :: "char list" where
  "status503 = ''HTTP/1.1 503 Service Unavailable'' @ [CR, LF]"
definition content_type :: "char list" where
  "content_type = ''Content-Type: text/plain'' @ [CR, LF]"
definition content_length :: "char list" where
  "content_length = ''Content-Length: 0'' @ [CR, LF, CR, LF]"

text \<open>\<^verbatim>\<open>memmem(hay, haylen, pat, patlen) != NULL\<close>: the pattern occurs in the haystack.\<close>

fun memmem :: "char list \<Rightarrow> char list \<Rightarrow> bool" where
  "memmem [] pat = (pat = [])"
| "memmem (x # xs) pat = (take (length pat) (x # xs) = pat \<or> memmem xs pat)"

definition has_marker :: "char list \<Rightarrow> bool" where
  "has_marker bs = (memmem bs http10 \<or> memmem bs http11)"

text \<open>
  The request line of the log (line 150), \<^verbatim>\<open>%.*s\<close> with the place of the first
  carriage return as the precision: the bytes before the first carriage return. Both
  \<^verbatim>\<open>strchr\<close> and \<^verbatim>\<open>%s\<close> stop at a NUL byte. With a NUL byte before the carriage
  return \<^verbatim>\<open>strchr\<close> returns \<^verbatim>\<open>NULL\<close>, and the precision is the \<^verbatim>\<open>int\<close> that the
  difference of a null pointer and \<^verbatim>\<open>buf\<close> converts to, which depends on the address
  of \<^verbatim>\<open>buf\<close>: a negative precision is taken as none, and a precision that is not
  less than the count of bytes before the NUL byte cuts nothing, and in both cases the
  line is the bytes before the NUL byte. The model takes the precision to be one of
  these. (The case that is left needs the low 32 bits of the address of \<^verbatim>\<open>buf\<close> to
  lie within 4096 of \<open>2^32\<close>; the line is then a shorter prefix of the same bytes.)
\<close>

definition request_line :: "char list \<Rightarrow> string" where
  "request_line bs = takeWhile (\<lambda>ch. ch \<noteq> CR \<and> ch \<noteq> NUL) bs"

text \<open>
  The ways a turn of a loop ends: it goes on with the next turn, it leaves the loop
  (\<^verbatim>\<open>break\<close>), it jumps to the label \<^verbatim>\<open>done\<close>, or the process dies in it.
\<close>

datatype 'a flow = Continue 'a | Break 'a | Done 'a | Crash 'a

text \<open>
  Lines 121-153, the branch taken when \<^verbatim>\<open>select\<close> returns 1: one \<^verbatim>\<open>read\<close>, into the
  free part of the buffer or, when none is left, into the buffer from its start. The
  log line of line 150 holds up to 4096 bytes of what the peer sent: it is the one line
  that can be too long for \<^verbatim>\<open>dolog\<close>, and then the process dies before
  \<^verbatim>\<open>http\<close> is set. Every other line is made of the name (at most 255 bytes), of at
  most one number or error text of the C library, and of less than 30 other bytes, and
  fits behind a process id of up to 19 digits.
\<close>

definition recv_step :: "conn \<Rightarrow> world \<Rightarrow> (conn \<times> world) flow" where
  "recv_step c w =
     (let avail = BUFSZ - used c;
          p = (if avail > 0 then nat (used c) else 0);
          n = (if avail > 0 then avail else BUFSZ)
      in case read_call n w of
           (Bytes bs, w1) \<Rightarrow>
             if bs = [] then Break (c\<lparr>eof := True\<rparr>, emit (Info LogEof) (emit (Recv []) w1))
             else
               let c1 = c\<lparr>buf := store p bs (buf c)\<rparr>;
                   w2 = emit (Info (Received (int (length bs)))) (emit (Recv bs) w1);
                   c2 = (if avail \<noteq> 0 then c1\<lparr>used := used c + int (length bs)\<rparr> else c1)
               in if avail \<noteq> 0 \<and> \<not> http c2 \<and> has_marker (held c2)
                  then
                    if log_fits (pid c) (''['' @ name c @ ''] '' @ request_line (held c2))
                    then Continue (c2\<lparr>http := True\<rparr>,
                                   emit (Info (RequestLine (request_line (held c2)))) w2)
                    else Crash (c2, w2)
                  else Continue (c2, w2)
         | (ReadErr e, w1) \<Rightarrow>
             if e \<noteq> EAGAIN \<and> e \<noteq> EINTR then Done (c, emit (Error (ReadFailed e)) w1)
             else Continue (c, w1))"

text \<open>Lines 113-159: one turn of the reading loop after the deadline check.\<close>

definition read_iter :: "int \<Rightarrow> conn \<Rightarrow> world \<Rightarrow> (conn \<times> world) flow" where
  "read_iter remaining c w =
     (case select_call remaining w of
        (Readable, w1) \<Rightarrow> recv_step c w1
      | (TimedOut, w1) \<Rightarrow> Continue (c, w1)
      | (SelectErr e, w1) \<Rightarrow>
          if e \<noteq> EINTR then Done (c, emit (Error (SelectFailed e)) w1)
          else Continue (c, w1))"


text \<open>
  What becomes of a piece of the program: it returns, or the process dies in it, which
  leaves the world with the trace up to there.
\<close>

datatype 'a outcome = Returned 'a | Crashed world

text \<open>
  Lines 105-160, the reading loop. Each turn reads the clock first and leaves the loop
  when nothing remains of the delay. \<open>LoopEnd\<close> is a \<^verbatim>\<open>break\<close>, \<open>GotoDone\<close> the jump
  to the label \<^verbatim>\<open>done\<close>; when the process dies in a turn, the loop does not return.
\<close>

datatype loop_exit = LoopEnd | GotoDone

function read_loop ::
  "int \<Rightarrow> conn \<Rightarrow> world \<Rightarrow> (loop_exit \<times> conn \<times> world) outcome option" where
  "read_loop deadline c w =
     (case time_call w of
        None \<Rightarrow> None
      | Some (now, w1) \<Rightarrow>
          let remaining = to_int32 (deadline - now)
          in if remaining \<le> 0 then Some (Returned (LoopEnd, c, w1))
             else (case read_iter remaining c w1 of
                 Continue (c', w') \<Rightarrow> read_loop deadline c' w'
               | Break (c', w') \<Rightarrow> Some (Returned (LoopEnd, c', w'))
               | Done (c', w') \<Rightarrow> Some (Returned (GotoDone, c', w'))
               | Crash (c', w') \<Rightarrow> Some (Crashed w')))"
  by pat_completeness auto
termination
proof (relation "measure (\<lambda>(d, c, w). length (clock w))", goal_cases)
  case 1
  show ?case by simp
next
  case (2 deadline c w x2 now w1 remaining x1 c' w')
  from 2(1,2) have "clock w1 = tl (clock w)" "clock w \<noteq> []"
    by (auto simp: time_call_def split: list.splits)
  moreover have rc: "clock v' = clock v" if "read_call n v = (r, v')" for n v r v'
    using that by (auto simp: read_call_def split: list.splits read_result.splits)
  from 2(5,6) have "clock w' = clock w1"
    by (auto simp: read_iter_def select_call_def recv_step_def Let_def emit_def dest!: rc
        split: prod.splits select_result.splits read_result.splits if_splits list.splits)
  ultimately show ?case
    by (cases "clock w") auto
qed

declare read_loop.simps [simp del]

text \<open>Lines 162-170: the first two lines of the HTTP answer.\<close>

definition send_header :: "conn \<Rightarrow> world \<Rightarrow> conn \<times> world" where
  "send_header c w =
     (if http c then
        (case writestr status503 w of
           (r1, w1) \<Rightarrow>
             (case writestr content_type w1 of
                (r2, w2) \<Rightarrow>
                  let c' = c\<lparr>eof := (eof c \<or> r1 \<noteq> 0 \<or> r2 \<noteq> 0)\<rparr>
                  in (c', if \<not> eof c' then emit (Info Sent503) w2 else w2)))
      else (c, w))"

text \<open>
  Lines 176-188: one turn of the draining loop after the deadline check. It has no jump
  to \<^verbatim>\<open>done\<close>, and its log lines fit.
\<close>

definition nap :: "int \<Rightarrow> world \<Rightarrow> world" where
  "nap remaining w =
     emit (Sleep (if remaining > 10 then 10 else remaining)) (emit (Info (Remaining remaining)) w)"

definition drain_iter :: "int \<Rightarrow> conn \<Rightarrow> world \<Rightarrow> (conn \<times> world) flow" where
  "drain_iter remaining c w =
     (if \<not> eof c then
        (case read_call BUFSZ w of
           (Bytes bs, w1) \<Rightarrow>
             if bs = [] then
               Break (c\<lparr>eof := True\<rparr>, emit (Info LogEof) (emit (Drained (Bytes [])) w1))
             else
               Continue (c\<lparr>buf := store 0 bs (buf c)\<rparr>,
                         nap remaining (emit (Drained (Bytes bs)) w1))
         | (ReadErr e, w1) \<Rightarrow> Continue (c, nap remaining (emit (Drained (ReadErr e)) w1)))
      else Continue (c, nap remaining w))"

function drain_loop :: "int \<Rightarrow> conn \<Rightarrow> world \<Rightarrow> (conn \<times> world) option" where
  "drain_loop deadline c w =
     (case time_call w of
        None \<Rightarrow> None
      | Some (now, w1) \<Rightarrow>
          let remaining = to_int32 (deadline - now)
          in if remaining \<le> 0 then Some (c, w1)
             else (case drain_iter remaining c w1 of
                 Continue (c', w') \<Rightarrow> drain_loop deadline c' w'
               | Break (c', w') \<Rightarrow> Some (c', w')
               | Done (c', w') \<Rightarrow> Some (c', w')
               | Crash (c', w') \<Rightarrow> Some (c', w')))"
  by pat_completeness auto
termination
proof (relation "measure (\<lambda>(d, c, w). length (clock w))", goal_cases)
  case 1
  show ?case by simp
next
  case (2 deadline c w x2 now w1 remaining x1 c' w')
  from 2(1,2) have "clock w1 = tl (clock w)" "clock w \<noteq> []"
    by (auto simp: time_call_def split: list.splits)
  moreover have rc: "clock v' = clock v" if "read_call n v = (r, v')" for n v r v'
    using that by (auto simp: read_call_def split: list.splits read_result.splits)
  from 2(5,6) have "clock w' = clock w1"
    by (auto simp: drain_iter_def nap_def emit_def dest!: rc
        split: prod.splits read_result.splits if_splits)
  ultimately show ?case
    by (cases "clock w") auto
qed

declare drain_loop.simps [simp del]

text \<open>Lines 172-198: draining, then the last part of the answer.\<close>

definition drain_and_respond :: "int \<Rightarrow> conn \<Rightarrow> world \<Rightarrow> world option" where
  "drain_and_respond deadline c w =
     (if \<not> eof c then
        (case drain_loop deadline c w of
           None \<Rightarrow> None
         | Some (c1, w1) \<Rightarrow>
             Some (if \<not> eof c1
                   then (if http c1 then snd (writestr content_length w1)
                         else snd (writestr hello w1))
                   else w1))
      else Some w)"

text \<open>Lines 200-203, the label \<^verbatim>\<open>done\<close>.\<close>

definition closing :: "world \<Rightarrow> world" where
  "closing w = emit (Info Closed) (emit Close (emit Shutdown w))"

text \<open>The state of the handler when the reading loop begins.\<close>

definition conn0 :: "nat \<Rightarrow> string \<Rightarrow> (nat \<Rightarrow> char) \<Rightarrow> conn" where
  "conn0 p nm garbage =
     \<lparr>pid = p, name = nm, buf = garbage, used = 0, http = False, eof = False\<rparr>"

text \<open>
  Line 97 formats the name of the peer into \<^verbatim>\<open>char name[256]\<close> with \<^verbatim>\<open>sprintf\<close>:
  the host, a colon and the port in decimal. The host is the name that
  \<^verbatim>\<open>gethostbyaddr\<close> found or, when it found none, the address in dotted notation
  (\<^verbatim>\<open>inet_ntoa\<close>): the model takes this string as a parameter. A name of 256 bytes or
  more does not fit with its NUL byte, and \<^verbatim>\<open>sprintf\<close> writes beyond the array: the
  behaviour is undefined from there on, and the model ends the run.
\<close>

definition NAMESZ :: nat where
  "NAMESZ = 256"

definition peer_name :: "string \<Rightarrow> nat \<Rightarrow> string" where
  "peer_name host port = host @ '':'' @ decimal port"

text \<open>
  \<^verbatim>\<open>respond_slowly\<close> (lines 84-204) for a delay \<^verbatim>\<open>response_delay\<close>, in the process
  \<open>p\<close>, for a peer with the given host and port, and the first contents of the
  buffer. The deadline is fixed first (line 92), then the name of the peer is looked up.
\<close>

definition respond_slowly ::
  "int \<Rightarrow> nat \<Rightarrow> string \<Rightarrow> nat \<Rightarrow> (nat \<Rightarrow> char) \<Rightarrow> world \<Rightarrow> world outcome option" where
  "respond_slowly response_delay p host port garbage w =
     (case time_call w of
        None \<Rightarrow> None
      | Some (t0, w0) \<Rightarrow>
          let deadline = t0 + response_delay;
              wl = emit Lookup w0
          in if NAMESZ \<le> length (peer_name host port) then Some (Crashed wl)
             else
               let c0 = conn0 p (peer_name host port) garbage;
                   w1 = emit Nonblock (emit (Info Connected) wl)
               in (case read_loop deadline c0 w1 of
                     None \<Rightarrow> None
                   | Some (Crashed w2) \<Rightarrow> Some (Crashed w2)
                   | Some (Returned (GotoDone, c, w2)) \<Rightarrow> Some (Returned (closing w2))
                   | Some (Returned (LoopEnd, c, w2)) \<Rightarrow>
                       (case send_header c w2 of
                          (c3, w3) \<Rightarrow>
                            map_option (\<lambda>w4. Returned (closing w4))
                              (drain_and_respond deadline c3 w3))))"


fun ended :: "(loop_exit \<times> conn \<times> world) outcome \<Rightarrow> world" where
  "ended (Returned (x, c, w)) = w"
| "ended (Crashed w) = w"

text \<open>A connection starts with the scripts and an empty trace.\<close>

definition fresh ::
  "int list \<Rightarrow> select_result list \<Rightarrow> read_result list \<Rightarrow> write_result list \<Rightarrow> world" where
  "fresh ts ss rs ws = \<lparr>clock = ts, selects = ss, reads = rs, writes = ws, trace = []\<rparr>"

definition sent_bytes :: "event list \<Rightarrow> char list" where
  "sent_bytes evs = concat (map (\<lambda>e. case e of Sent bs \<Rightarrow> bs | _ \<Rightarrow> []) evs)"

definition received :: "event list \<Rightarrow> char list" where
  "received evs = concat (map (\<lambda>e. case e of Recv bs \<Rightarrow> bs | _ \<Rightarrow> []) evs)"


section \<open>main\<close>

text \<open>
  The C library's \<^verbatim>\<open>atoi\<close>, as glibc has it: \<^verbatim>\<open>(int) strtol(s, NULL, 10)\<close>. White space
  is skipped, a sign is read, then the decimal digits as far as they go; what follows
  them is ignored, and no digits give 0. \<^verbatim>\<open>strtol\<close> stops at the ends of the 64-bit
  \<^verbatim>\<open>long\<close>, the conversion to \<^verbatim>\<open>int\<close> keeps the low 32 bits.
\<close>

definition isspace :: "char \<Rightarrow> bool" where
  "isspace ch = (ch \<in> {CHR '' '', CHR 0x09, CHR 0x0A, CHR 0x0B, CHR 0x0C, CHR 0x0D})"

definition isdigit :: "char \<Rightarrow> bool" where
  "isdigit ch = (48 \<le> (of_char ch :: nat) \<and> (of_char ch :: nat) \<le> 57)"

fun digits_val :: "int \<Rightarrow> char list \<Rightarrow> int" where
  "digits_val acc [] = acc"
| "digits_val acc (ch # cs) =
     (if isdigit ch then digits_val (10 * acc + (of_char ch - 48)) cs else acc)"

definition strtol :: "char list \<Rightarrow> int" where
  "strtol s =
     (case dropWhile isspace s of
        [] \<Rightarrow> 0
      | ch # cs \<Rightarrow>
          if ch = CHR ''-'' then max (- 9223372036854775808) (- digits_val 0 cs)
          else if ch = CHR ''+'' then min 9223372036854775807 (digits_val 0 cs)
          else min 9223372036854775807 (digits_val 0 (ch # cs)))"

definition atoi :: "char list \<Rightarrow> int" where
  "atoi s = to_int32 (strtol s)"

text \<open>
  Lines 289-313: the loop over \<^verbatim>\<open>argv[1..]\<close>. It stops the process at the first
  option it does not know and at a third positional argument.
\<close>

definition dash :: "string \<Rightarrow> bool" where
  "dash a = (case a of [] \<Rightarrow> False | ch # _ \<Rightarrow> ch = CHR ''-'')"

datatype message = Usage | Unrecognized string | TooMany

datatype main_result = Exited int "message list" | Served int int bool

fun parse_args ::
  "string list \<Rightarrow> bool \<Rightarrow> string option \<Rightarrow> string option \<Rightarrow>
   message + (bool \<times> string option \<times> string option)" where
  "parse_args [] single port delay = Inr (single, port, delay)"
| "parse_args (a # as) single port delay =
     (if a = ''-1'' then parse_args as True port delay
      else if dash a then Inl (Unrecognized a)
      else if port = None then parse_args as single (Some a) delay
      else if delay = None then parse_args as single port (Some a)
      else Inl TooMany)"

text \<open>
  \<^verbatim>\<open>main\<close> (lines 280-333). \<open>Served port delay single\<close> stands for the call of
  \<^verbatim>\<open>server()\<close> with the three globals set; \<open>Exited status out\<close> for \<^verbatim>\<open>exit(status)\<close>
  after the output \<open>out\<close>.
\<close>

definition main :: "string list \<Rightarrow> main_result" where
  "main argv =
     (case parse_args (tl argv) False None None of
        Inl out \<Rightarrow> Exited 1 [out]
      | Inr (single, None, _) \<Rightarrow> Exited 1 [Usage]
      | Inr (single, Some port, None) \<Rightarrow> Exited 1 [Usage]
      | Inr (single, Some port, Some delay) \<Rightarrow>
          let server_port = atoi port; response_delay = atoi delay
          in if server_port \<le> 0 \<or> response_delay \<le> 0 then Exited 1 [Usage]
             else Served server_port response_delay single)"


text \<open>
  The positional arguments are those that do not start with \<^verbatim>\<open>-\<close>. The second
  definition is the spec's reading of a well-formed number: decimal digits only, with a
  positive value.
\<close>

definition positionals :: "string list \<Rightarrow> string list" where
  "positionals args = filter (\<lambda>a. \<not> dash a) args"

definition known_options :: "string list \<Rightarrow> bool" where
  "known_options args = list_all (\<lambda>a. dash a \<longrightarrow> a = ''-1'') args"

definition spec_positive_integer :: "string \<Rightarrow> bool" where
  "spec_positive_integer s = (s \<noteq> [] \<and> list_all isdigit s \<and> 0 < digits_val 0 s)"

section \<open>Notions used in the properties\<close>

text \<open>The state a turn of a loop leaves, whichever way the turn ends.\<close>

fun flow_state :: "'a flow \<Rightarrow> 'a" where
  "flow_state (Continue x) = x"
| "flow_state (Break x) = x"
| "flow_state (Done x) = x"
| "flow_state (Crash x) = x"

text \<open>
  The states of the locals that a connection can be in: the first one, and any state
  that a turn of the reading loop, the header lines or a turn of the draining loop
  leaves, whatever the operating system answers.
\<close>

inductive reachable :: "conn \<Rightarrow> bool" where
  r_init: "reachable (conn0 p nm garbage)"
| r_read: "reachable c \<Longrightarrow> flow_state (read_iter r c w) = (c', w') \<Longrightarrow> reachable c'"
| r_header: "reachable c \<Longrightarrow> send_header c w = (c', w') \<Longrightarrow> reachable c'"
| r_drain: "reachable c \<Longrightarrow> flow_state (drain_iter r c w) = (c', w') \<Longrightarrow> reachable c'"


text \<open>The byte at an index of the buffer when the reading loop has ended.\<close>

definition held_byte ::
  "nat \<Rightarrow> (loop_exit \<times> conn \<times> world) outcome option \<Rightarrow> char option" where
  "held_byte i r =
     (case r of Some (Returned (x, c, w)) \<Rightarrow> Some (held c ! i) | _ \<Rightarrow> None)"

text \<open>
  The events of the phases of a connection: what the reading loop can add to the trace,
  what the draining loop can add, and what \<^verbatim>\<open>writestr\<close> and the log line after the
  header can add.
\<close>

fun reading_event :: "event \<Rightarrow> bool" where
  "reading_event (Clock t) = True"
| "reading_event (Select r) = True"
| "reading_event (Recv bs) = True"
| "reading_event (Info (Received n)) = True"
| "reading_event (Info (RequestLine l)) = True"
| "reading_event (Info LogEof) = True"
| "reading_event (Error (ReadFailed e)) = True"
| "reading_event (Error (SelectFailed e)) = True"
| "reading_event _ = False"

fun draining_event :: "event \<Rightarrow> bool" where
  "draining_event (Clock t) = True"
| "draining_event (Drained r) = True"
| "draining_event (Info (Remaining r)) = True"
| "draining_event (Info LogEof) = True"
| "draining_event (Sleep s) = True"
| "draining_event _ = False"

fun writing_event :: "event \<Rightarrow> bool" where
  "writing_event (Sent bs) = True"
| "writing_event (Error (WriteFailed e)) = True"
| "writing_event (Info Sent503) = True"
| "writing_event _ = False"

text \<open>The clock reading \<open>t\<close> leaves nothing of the delay (lines 109-111 and 176-178).\<close>

definition expired :: "int \<Rightarrow> int \<Rightarrow> bool" where
  "expired deadline t = (to_int32 (deadline - t) \<le> 0)"

text \<open>
  The durations of the calls of \<^verbatim>\<open>sleep\<close>, the results of the calls of \<^verbatim>\<open>read\<close>
  in the draining loop (one for each turn of the loop) and the timeouts of \<^verbatim>\<open>select\<close>
  in a trace.
\<close>

definition sleeps :: "event list \<Rightarrow> int list" where
  "sleeps evs = concat (map (\<lambda>e. case e of Sleep s \<Rightarrow> [s] | _ \<Rightarrow> []) evs)"

definition drains :: "event list \<Rightarrow> read_result list" where
  "drains evs = concat (map (\<lambda>e. case e of Drained r \<Rightarrow> [r] | _ \<Rightarrow> []) evs)"

definition timeouts :: "event list \<Rightarrow> int list" where
  "timeouts evs = concat (map (\<lambda>e. case e of Select r \<Rightarrow> [r] | _ \<Rightarrow> []) evs)"





text \<open>A script in which every \<^verbatim>\<open>read\<close> fails.\<close>

definition failing_reads :: "read_result list \<Rightarrow> bool" where
  "failing_reads rs = list_all (\<lambda>r. case r of ReadErr e \<Rightarrow> True | Bytes bs \<Rightarrow> False) rs"

text \<open>
  What the properties of the timing ask of the clock. \<open>near\<close>: the reading is less
  than \<open>2^31\<close> seconds away from the deadline, so that the 32-bit \<^verbatim>\<open>remaining\<close> is
  the true difference. \<open>naps_elapse\<close>: a call of \<^verbatim>\<open>sleep\<close> lasts as long as it was
  asked to, that is, the reading after a turn of the draining loop that began at \<open>t\<close>
  with time remaining is at least \<open>t\<close> plus the \<open>min 10 remaining\<close> seconds of the nap.
\<close>

definition near :: "int \<Rightarrow> int \<Rightarrow> bool" where
  "near deadline t = (- 2147483648 \<le> deadline - t \<and> deadline - t < 2147483648)"







text \<open>The events in which the program neither reads the clock nor waits.\<close>

fun plain_event :: "event \<Rightarrow> bool" where
  "plain_event (Clock t) = False"
| "plain_event (Select r) = False"
| "plain_event (Sleep s) = False"
| "plain_event e = True"

text \<open>The bytes that a script of \<^verbatim>\<open>read\<close> results holds: what the peer sends.\<close>

definition stream :: "read_result list \<Rightarrow> char list" where
  "stream rs = concat (map (\<lambda>r. case r of Bytes bs \<Rightarrow> bs | ReadErr e \<Rightarrow> []) rs)"

text \<open>
  What a run that returns leaves, and what a run in which the process dies leaves; no
  value in the other cases.
\<close>

definition returned :: "'a outcome option \<Rightarrow> 'a option" where
  "returned r = (case r of Some (Returned x) \<Rightarrow> Some x | _ \<Rightarrow> None)"

definition crashed :: "'a outcome option \<Rightarrow> world option" where
  "crashed r = (case r of Some (Crashed w) \<Rightarrow> Some w | _ \<Rightarrow> None)"

text \<open>A request of 516 bytes with a first line of 514 bytes, for concrete runs.\<close>

definition long_request :: "char list" where
  "long_request = ''GET /'' @ replicate 500 (CHR ''a'') @ '' '' @ http11"

text \<open>A buffer of NUL bytes, for concrete runs.\<close>

definition zeros :: "nat \<Rightarrow> char" where
  "zeros i = NUL"

definition pre :: "string option \<Rightarrow> string option \<Rightarrow> string list" where
  "pre p d = (case p of None \<Rightarrow> [] | Some x \<Rightarrow> x # (case d of None \<Rightarrow> [] | Some y \<Rightarrow> [y]))"

section \<open>Rules for the two loops\<close>

lemma read_loop_outcome_rule:
  assumes run: "read_loop d c w = Some out"
    and init: "I c w"
    and tick: "\<And>c w t w1. I c w \<Longrightarrow> time_call w = Some (t, w1) \<Longrightarrow> J t c w1"
    and expire: "\<And>c w t. J t c w \<Longrightarrow> to_int32 (d - t) \<le> 0 \<Longrightarrow> Q (Returned (LoopEnd, c, w))"
    and cont: "\<And>c w t c1 w1. J t c w \<Longrightarrow> 0 < to_int32 (d - t) \<Longrightarrow>
        read_iter (to_int32 (d - t)) c w = Continue (c1, w1) \<Longrightarrow> I c1 w1"
    and brk: "\<And>c w t c1 w1. J t c w \<Longrightarrow> 0 < to_int32 (d - t) \<Longrightarrow>
        read_iter (to_int32 (d - t)) c w = Break (c1, w1) \<Longrightarrow> Q (Returned (LoopEnd, c1, w1))"
    and dne: "\<And>c w t c1 w1. J t c w \<Longrightarrow> 0 < to_int32 (d - t) \<Longrightarrow>
        read_iter (to_int32 (d - t)) c w = Done (c1, w1) \<Longrightarrow> Q (Returned (GotoDone, c1, w1))"
    and crash: "\<And>c w t c1 w1. J t c w \<Longrightarrow> 0 < to_int32 (d - t) \<Longrightarrow>
        read_iter (to_int32 (d - t)) c w = Crash (c1, w1) \<Longrightarrow> Q (Crashed w1)"
  shows "Q out"
proof -
  have "read_loop dl c w = Some out \<Longrightarrow> I c w \<Longrightarrow> dl = d \<Longrightarrow> Q out" for dl
proof (induction dl c w rule: read_loop.induct)
  case (1 deadline c w)
  note unf = read_loop.simps [of deadline c w]
  note dl = \<open>deadline = d\<close>
  from "1.prems"(1) obtain now w1 where tc: "time_call w = Some (now, w1)"
    by (auto simp: unf split: option.splits)
  from tick [OF "1.prems"(2) tc] have J1: "J now c w1" .
  note expire' = expire [folded dl] and cont' = cont [folded dl]
    and brk' = brk [folded dl]
  show ?case
  proof (cases "to_int32 (deadline - now) \<le> 0")
    case True
    with "1.prems"(1) tc expire' [OF J1] show ?thesis
      by (auto simp: unf)
  next
    case False
    then have pos: "0 < to_int32 (deadline - now)"
      by simp
    show ?thesis
    proof (cases "read_iter (to_int32 (deadline - now)) c w1")
      case (Continue s)
      obtain c1 w2 where s: "s = (c1, w2)"
        by (cases s)
      from cont' [OF J1, of c1 w2] pos Continue s have "I c1 w2"
        by simp
      moreover from "1.prems"(1) tc False Continue s
      have "read_loop deadline c1 w2 = Some out"
        by (simp add: unf)
      ultimately show ?thesis
        using "1.IH" [OF tc refl refl False Continue s [symmetric]] dl by simp
    next
      case (Break s)
      obtain c1 w2 where s: "s = (c1, w2)"
        by (cases s)
      with Break "1.prems"(1) tc False brk' [OF J1, of c1 w2] pos show ?thesis
        by (auto simp: unf)
    next
      case (Done s)
      obtain c1 w2 where s: "s = (c1, w2)"
        by (cases s)
      with Done "1.prems"(1) tc False dne [folded dl, OF J1, of c1 w2] pos show ?thesis
        by (auto simp: unf)
    next
      case (Crash s)
      obtain c1 w2 where s: "s = (c1, w2)"
        by (cases s)
      with Crash "1.prems"(1) tc False crash [folded dl, OF J1, of c1 w2] pos show ?thesis
        by (auto simp: unf)
    qed
  qed
qed
  from this [OF run init refl] show ?thesis .
qed

lemma read_loop_rule:
  assumes run: "read_loop d c w = Some (Returned (x, c', w'))"
    and init: "I c w"
    and tick: "\<And>c w t w1. I c w \<Longrightarrow> time_call w = Some (t, w1) \<Longrightarrow> J t c w1"
    and expire: "\<And>c w t. J t c w \<Longrightarrow> to_int32 (d - t) \<le> 0 \<Longrightarrow> Q LoopEnd c w"
    and cont: "\<And>c w t c1 w1. J t c w \<Longrightarrow> 0 < to_int32 (d - t) \<Longrightarrow>
        read_iter (to_int32 (d - t)) c w = Continue (c1, w1) \<Longrightarrow> I c1 w1"
    and brk: "\<And>c w t c1 w1. J t c w \<Longrightarrow> 0 < to_int32 (d - t) \<Longrightarrow>
        read_iter (to_int32 (d - t)) c w = Break (c1, w1) \<Longrightarrow> Q LoopEnd c1 w1"
    and dne: "\<And>c w t c1 w1. J t c w \<Longrightarrow> 0 < to_int32 (d - t) \<Longrightarrow>
        read_iter (to_int32 (d - t)) c w = Done (c1, w1) \<Longrightarrow> Q GotoDone c1 w1"
  shows "Q x c' w'"
proof -
  have "case Returned (x, c', w') of Returned (x, c, w) \<Rightarrow> Q x c w | Crashed w \<Rightarrow> True"
  proof (rule read_loop_outcome_rule [OF run, where I = I and J = J])
    show "I c w" by fact
  next
    fix c w t w1
    assume "I c w" "time_call w = Some (t, w1)"
    then show "J t c w1" by (rule tick)
  next
    fix c w t
    assume "J t c w" "to_int32 (d - t) \<le> 0"
    then show "case Returned (LoopEnd, c, w) of Returned (x, c, w) \<Rightarrow> Q x c w | Crashed w \<Rightarrow> True"
      using expire [of t c w] by simp
  next
    fix c w t c1 w1
    assume "J t c w" "0 < to_int32 (d - t)" "read_iter (to_int32 (d - t)) c w = Continue (c1, w1)"
    then show "I c1 w1" by (rule cont)
  next
    fix c w t c1 w1
    assume "J t c w" "0 < to_int32 (d - t)" "read_iter (to_int32 (d - t)) c w = Break (c1, w1)"
    then show "case Returned (LoopEnd, c1, w1) of Returned (x, c, w) \<Rightarrow> Q x c w | Crashed w \<Rightarrow> True"
      using brk [of t c w c1 w1] by simp
  next
    fix c w t c1 w1
    assume "J t c w" "0 < to_int32 (d - t)" "read_iter (to_int32 (d - t)) c w = Done (c1, w1)"
    then show "case Returned (GotoDone, c1, w1) of Returned (x, c, w) \<Rightarrow> Q x c w | Crashed w \<Rightarrow> True"
      using dne [of t c w c1 w1] by simp
  next
    fix c w1 :: world
    show "case Crashed w1 of Returned (x, c, w) \<Rightarrow> Q x c w | Crashed w \<Rightarrow> True"
      by simp
  qed
  then show ?thesis
    by simp
qed

lemma read_loop_invariant:
  assumes "read_loop d c w = Some (Returned (x, c', w'))"
    and "I c w"
    and tick: "\<And>c w t w1. I c w \<Longrightarrow> time_call w = Some (t, w1) \<Longrightarrow> I c w1"
    and iter: "\<And>c w r c1 w1. I c w \<Longrightarrow> flow_state (read_iter r c w) = (c1, w1) \<Longrightarrow>
        \<forall>s. read_iter r c w \<noteq> Crash s \<Longrightarrow> I c1 w1"
  shows "I c' w'"
proof (rule read_loop_rule [OF assms(1), where I = I and J = "\<lambda>t. I" and Q = "\<lambda>x. I"])
  show "I c w" by fact
next
  fix c w t w1
  assume "I c w" "time_call w = Some (t, w1)"
  then show "I c w1" by (rule tick)
next
  fix c w and t :: int
  assume "I c w"
  then show "I c w" .
next
  fix c w t c1 w1
  assume "I c w" "0 < to_int32 (d - t)" "read_iter (to_int32 (d - t)) c w = Continue (c1, w1)"
  then show "I c1 w1" using iter [of c w "to_int32 (d - t)" c1 w1] by simp
next
  fix c w t c1 w1
  assume "I c w" "0 < to_int32 (d - t)" "read_iter (to_int32 (d - t)) c w = Break (c1, w1)"
  then show "I c1 w1" using iter [of c w "to_int32 (d - t)" c1 w1] by simp
next
  fix c w t c1 w1
  assume "I c w" "0 < to_int32 (d - t)" "read_iter (to_int32 (d - t)) c w = Done (c1, w1)"
  then show "I c1 w1" using iter [of c w "to_int32 (d - t)" c1 w1] by simp
qed

lemma drain_loop_rule:
  assumes run: "drain_loop d c w = Some (c', w')"
    and init: "I c w"
    and tick: "\<And>c w t w1. I c w \<Longrightarrow> time_call w = Some (t, w1) \<Longrightarrow> J t c w1"
    and expire: "\<And>c w t. J t c w \<Longrightarrow> to_int32 (d - t) \<le> 0 \<Longrightarrow> Q c w"
    and cont: "\<And>c w t c1 w1. J t c w \<Longrightarrow> 0 < to_int32 (d - t) \<Longrightarrow>
        drain_iter (to_int32 (d - t)) c w = Continue (c1, w1) \<Longrightarrow> I c1 w1"
    and brk: "\<And>c w t c1 w1. J t c w \<Longrightarrow> 0 < to_int32 (d - t) \<Longrightarrow>
        drain_iter (to_int32 (d - t)) c w = Break (c1, w1) \<Longrightarrow> Q c1 w1"
  shows "Q c' w'"
proof -
  have "drain_loop dl c w = Some (c', w') \<Longrightarrow> I c w \<Longrightarrow> dl = d \<Longrightarrow> Q c' w'" for dl
proof (induction dl c w rule: drain_loop.induct)
  case (1 deadline c w)
  note unf = drain_loop.simps [of deadline c w]
  note dl = \<open>deadline = d\<close>
  have nodone: "drain_iter r c0 w0 \<noteq> Done s" "drain_iter r c0 w0 \<noteq> Crash s" for r c0 w0 s
    by (auto simp: drain_iter_def split: prod.splits read_result.splits)
  from "1.prems"(1) obtain now w1 where tc: "time_call w = Some (now, w1)"
    by (auto simp: unf split: option.splits)
  from tick [OF "1.prems"(2) tc] have J1: "J now c w1" .
  note expire' = expire [folded dl] and cont' = cont [folded dl]
    and brk' = brk [folded dl]
  show ?case
  proof (cases "to_int32 (deadline - now) \<le> 0")
    case True
    with "1.prems"(1) tc expire' [OF J1] show ?thesis
      by (auto simp: unf)
  next
    case False
    then have pos: "0 < to_int32 (deadline - now)"
      by simp
    show ?thesis
    proof (cases "drain_iter (to_int32 (deadline - now)) c w1")
      case (Continue s)
      obtain c1 w2 where s: "s = (c1, w2)"
        by (cases s)
      from cont' [OF J1, of c1 w2] pos Continue s have "I c1 w2"
        by simp
      moreover from "1.prems"(1) tc False Continue s
      have "drain_loop deadline c1 w2 = Some (c', w')"
        by (simp add: unf)
      ultimately show ?thesis
        using "1.IH" [OF tc refl refl False Continue s [symmetric]] dl by simp
    next
      case (Break s)
      with "1.prems"(1) tc False brk' [OF J1, of c' w'] pos show ?thesis
        by (auto simp: unf)
    next
      case (Done s)
      with nodone show ?thesis
        by blast
    next
      case (Crash s)
      with nodone show ?thesis
        by blast
    qed
  qed
qed
  from this [OF run init refl] show ?thesis .
qed

lemma drain_loop_invariant:
  assumes "drain_loop d c w = Some (c', w')"
    and "I c w"
    and tick: "\<And>c w t w1. I c w \<Longrightarrow> time_call w = Some (t, w1) \<Longrightarrow> I c w1"
    and iter: "\<And>c w r c1 w1. I c w \<Longrightarrow> flow_state (drain_iter r c w) = (c1, w1) \<Longrightarrow> I c1 w1"
  shows "I c' w'"
proof (rule drain_loop_rule [OF assms(1), where I = I and J = "\<lambda>t. I" and Q = I])
  show "I c w" by fact
next
  fix c w t w1
  assume "I c w" "time_call w = Some (t, w1)"
  then show "I c w1" by (rule tick)
next
  fix c w and t :: int
  assume "I c w"
  then show "I c w" .
next
  fix c w t c1 w1
  assume "I c w" "0 < to_int32 (d - t)" "drain_iter (to_int32 (d - t)) c w = Continue (c1, w1)"
  then show "I c1 w1" using iter [of c w "to_int32 (d - t)" c1 w1] by simp
next
  fix c w t c1 w1
  assume "I c w" "0 < to_int32 (d - t)" "drain_iter (to_int32 (d - t)) c w = Break (c1, w1)"
  then show "I c1 w1" using iter [of c w "to_int32 (d - t)" c1 w1] by simp
qed

section \<open>System calls\<close>

lemma read_call_length: "read_call n w = (Bytes bs, w1) \<Longrightarrow> length bs \<le> nat n"
  by (auto simp: read_call_def split: list.splits read_result.splits)

lemma read_call_frame:
  "read_call n w = (r, w1) \<Longrightarrow>
   trace w1 = trace w \<and> clock w1 = clock w \<and> selects w1 = selects w \<and> writes w1 = writes w"
  by (auto simp: read_call_def split: list.splits read_result.splits)

lemma select_call_frame:
  "select_call r w = (s, w1) \<Longrightarrow>
   trace w1 = trace w @ [Select r] \<and> clock w1 = clock w \<and> reads w1 = reads w \<and> writes w1 = writes w"
  by (auto simp: select_call_def emit_def split: list.splits)

lemma time_call_frame:
  "time_call w = Some (t, w1) \<Longrightarrow>
   trace w1 = trace w @ [Clock t] \<and> clock w = t # clock w1 \<and> reads w1 = reads w \<and>
   writes w1 = writes w \<and> selects w1 = selects w"
  by (auto simp: time_call_def split: list.splits)

lemma received_append [simp]: "received (xs @ ys) = received xs @ received ys"
  by (simp add: received_def)

lemma received_simps [simp]:
  "received [] = []"
  "received (Recv bs # evs) = bs @ received evs"
  "received (Clock t # evs) = received evs"
  "received (Lookup # evs) = received evs"
  "received (Info m # evs) = received evs"
  "received (Error m # evs) = received evs"
  "received (Select r # evs) = received evs"
  "received (Nonblock # evs) = received evs"
  "received (Drained rr # evs) = received evs"
  "received (Sent bs # evs) = received evs"
  "received (Sleep r # evs) = received evs"
  "received (Shutdown # evs) = received evs"
  "received (Close # evs) = received evs"
  by (simp_all add: received_def)

section \<open>The buffer\<close>

lemma map_store_below: "n \<le> p \<Longrightarrow> map (store p bs b) [0..<n] = map b [0..<n]"
  by (simp add: store_def)

lemma map_store_at: "map (store p bs b) [p..<p + length bs] = bs"
  by (rule nth_equalityI) (simp_all add: store_def)

lemma held_store_append:
  assumes "0 \<le> used c"
  shows "held (c\<lparr>buf := store (nat (used c)) bs (buf c), used := used c + int (length bs)\<rparr>)
         = held c @ bs"
proof -
  from assms have "nat (used c + int (length bs)) = nat (used c) + length bs"
    by (simp add: nat_add_distrib)
  then have "[0..<nat (used c + int (length bs))]
      = [0..<nat (used c)] @ [nat (used c)..<nat (used c) + length bs]"
    using upt_add_eq_append [of 0 "nat (used c)" "length bs"] by simp
  then show ?thesis
    by (simp add: held_def map_store_below map_store_at)
qed

lemma store_beyond: "p + length bs \<le> i \<Longrightarrow> store p bs b i = b i"
  by (simp add: store_def)

lemma store_within: "i < length bs \<Longrightarrow> store 0 bs b i = bs ! i"
  by (simp add: store_def)

section \<open>memmem\<close>

lemma take_eq_iff_prefix: "take (length pat) xs = pat \<longleftrightarrow> (\<exists>s. xs = pat @ s)"
proof
  assume a: "take (length pat) xs = pat"
  have "xs = take (length pat) xs @ drop (length pat) xs"
    by simp
  also have "\<dots> = pat @ drop (length pat) xs"
    by (simp only: a)
  finally show "\<exists>s. xs = pat @ s" ..
next
  assume "\<exists>s. xs = pat @ s"
  then show "take (length pat) xs = pat"
    by auto
qed

lemma memmem_iff: "memmem hay pat \<longleftrightarrow> (\<exists>p s. hay = p @ pat @ s)"
proof (induction hay)
  case Nil
  then show ?case by auto
next
  case (Cons x xs)
  show ?case
  proof
    assume "memmem (x # xs) pat"
    then consider "take (length pat) (x # xs) = pat" | "memmem xs pat"
      by auto
    then show "\<exists>p s. x # xs = p @ pat @ s"
    proof cases
      case 1
      then obtain s where "x # xs = pat @ s"
        using take_eq_iff_prefix [of pat "x # xs"] by blast
      then have "x # xs = [] @ pat @ s" by simp
      then show ?thesis by blast
    next
      case 2
      with Cons obtain p s where "xs = p @ pat @ s" by blast
      then have "x # xs = (x # p) @ pat @ s" by simp
      then show ?thesis by blast
    qed
  next
    assume "\<exists>p s. x # xs = p @ pat @ s"
    then obtain p s where eq: "x # xs = p @ pat @ s" by blast
    show "memmem (x # xs) pat"
    proof (cases p)
      case Nil
      with eq have "take (length pat) (x # xs) = pat"
        using take_eq_iff_prefix [of pat "x # xs"] by auto
      then show ?thesis by simp
    next
      case (Cons y p')
      with eq have "xs = p' @ pat @ s" by simp
      with Cons.IH have "memmem xs pat" by blast
      then show ?thesis by simp
    qed
  qed
qed

lemma has_marker_iff:
  "has_marker bs \<longleftrightarrow> (\<exists>p s. bs = p @ http10 @ s \<or> bs = p @ http11 @ s)"
  by (auto simp: has_marker_def memmem_iff)


section \<open>One receive\<close>

lemma recv_step_eof:
  assumes "read_call (if BUFSZ - used c > 0 then BUFSZ - used c else BUFSZ) w = (Bytes [], w1)"
  shows "recv_step c w = Break (c\<lparr>eof := True\<rparr>, emit (Info LogEof) (emit (Recv []) w1))"
  using assms by (simp add: recv_step_def Let_def)

lemma recv_step_err:
  assumes "read_call (if BUFSZ - used c > 0 then BUFSZ - used c else BUFSZ) w = (ReadErr e, w1)"
  shows "recv_step c w =
    (if e \<noteq> EAGAIN \<and> e \<noteq> EINTR then Done (c, emit (Error (ReadFailed e)) w1)
     else Continue (c, w1))"
  using assms by (simp add: recv_step_def Let_def)

lemma recv_step_free:
  assumes "read_call (BUFSZ - used c) w = (Bytes bs, w1)" "bs \<noteq> []" "used c < BUFSZ"
  defines "c2 \<equiv> c\<lparr>buf := store (nat (used c)) bs (buf c), used := used c + int (length bs)\<rparr>"
  defines "w2 \<equiv> emit (Info (Received (int (length bs)))) (emit (Recv bs) w1)"
  shows "recv_step c w =
    (if \<not> http c \<and> has_marker (held c2)
     then if log_fits (pid c) (''['' @ name c @ ''] '' @ request_line (held c2))
       then Continue (c2\<lparr>http := True\<rparr>, emit (Info (RequestLine (request_line (held c2)))) w2)
       else Crash (c2, w2)
     else Continue (c2, w2))"
  using assms(1-3) by (simp add: recv_step_def Let_def c2_def w2_def)

lemma recv_step_full:
  assumes "read_call BUFSZ w = (Bytes bs, w1)" "bs \<noteq> []" "used c = BUFSZ"
  shows "recv_step c w =
    Continue (c\<lparr>buf := store 0 bs (buf c)\<rparr>,
              emit (Info (Received (int (length bs)))) (emit (Recv bs) w1))"
  using assms by (simp add: recv_step_def Let_def)

text \<open>The cases of a receive, for a buffer within its bounds.\<close>

lemma recv_step_cases:
  assumes "0 \<le> used c" "used c \<le> BUFSZ"
  obtains
    (eof) w1 where "recv_step c w = Break (c\<lparr>eof := True\<rparr>, w1)"
      "trace w1 = trace w @ [Recv [], Info LogEof]"
  | (fatal) e w1 where "recv_step c w = Done (c, w1)" "e \<noteq> EAGAIN" "e \<noteq> EINTR"
      "trace w1 = trace w @ [Error (ReadFailed e)]"
  | (retry) w1 where "recv_step c w = Continue (c, w1)" "trace w1 = trace w"
  | (plain) bs w1 c2 where "used c < BUFSZ" "bs \<noteq> []" "int (length bs) \<le> BUFSZ - used c"
      "c2 = c\<lparr>buf := store (nat (used c)) bs (buf c), used := used c + int (length bs)\<rparr>"
      "http c \<or> \<not> has_marker (held c2)"
      "recv_step c w = Continue (c2, w1)"
      "trace w1 = trace w @ [Recv bs, Info (Received (int (length bs)))]"
  | (sniff) bs w1 c2 where "used c < BUFSZ" "bs \<noteq> []" "int (length bs) \<le> BUFSZ - used c"
      "c2 = c\<lparr>buf := store (nat (used c)) bs (buf c), used := used c + int (length bs)\<rparr>"
      "\<not> http c" "has_marker (held c2)"
      "log_fits (pid c) (''['' @ name c @ ''] '' @ request_line (held c2))"
      "recv_step c w = Continue (c2\<lparr>http := True\<rparr>, w1)"
      "trace w1 = trace w @ [Recv bs, Info (Received (int (length bs))),
         Info (RequestLine (request_line (held c2)))]"
  | (crash) bs w1 c2 where "used c < BUFSZ" "bs \<noteq> []" "int (length bs) \<le> BUFSZ - used c"
      "c2 = c\<lparr>buf := store (nat (used c)) bs (buf c), used := used c + int (length bs)\<rparr>"
      "\<not> http c" "has_marker (held c2)"
      "\<not> log_fits (pid c) (''['' @ name c @ ''] '' @ request_line (held c2))"
      "recv_step c w = Crash (c2, w1)"
      "trace w1 = trace w @ [Recv bs, Info (Received (int (length bs)))]"
  | (full) bs w1 where "used c = BUFSZ" "bs \<noteq> []" "int (length bs) \<le> BUFSZ"
      "recv_step c w = Continue (c\<lparr>buf := store 0 bs (buf c)\<rparr>, w1)"
      "trace w1 = trace w @ [Recv bs, Info (Received (int (length bs)))]"
proof -
  let ?n = "if BUFSZ - used c > 0 then BUFSZ - used c else BUFSZ"
  obtain r w0 where rc: "read_call ?n w = (r, w0)"
    by (cases "read_call ?n w")
  from read_call_frame [OF rc] have tr: "trace w0 = trace w"
    by simp
  show thesis
  proof (cases r)
    case (ReadErr e)
    with rc recv_step_err [of c w e w0] tr show thesis
      by (cases "e \<noteq> EAGAIN \<and> e \<noteq> EINTR") (auto intro: fatal retry simp: emit_def)
  next
    case (Bytes bs)
    show thesis
    proof (cases "bs = []")
      case True
      with Bytes rc recv_step_eof [of c w w0] tr show thesis
        by (auto intro!: eof simp: emit_def)
    next
      case False
      from read_call_length rc Bytes have len: "length bs \<le> nat ?n"
        by blast
      show thesis
      proof (cases "used c < BUFSZ")
        case True
        let ?c2 = "c\<lparr>buf := store (nat (used c)) bs (buf c), used := used c + int (length bs)\<rparr>"
        from True rc Bytes have rc': "read_call (BUFSZ - used c) w = (Bytes bs, w0)"
          by simp
        from True len have l: "int (length bs) \<le> BUFSZ - used c"
          by simp
        show thesis
        proof (cases "\<not> http c \<and> has_marker (held ?c2)")
          case c: True
          show thesis
          proof (cases "log_fits (pid c) (''['' @ name c @ ''] '' @ request_line (held ?c2))")
            case f: True
            from recv_step_free [OF rc' False True]
            have "recv_step c w = Continue (?c2\<lparr>http := True\<rparr>,
                emit (Info (RequestLine (request_line (held ?c2))))
                  (emit (Info (Received (int (length bs)))) (emit (Recv bs) w0)))"
              by (simp only: c f simp_thms if_True)
            moreover have "trace (emit (Info (RequestLine (request_line (held ?c2))))
                  (emit (Info (Received (int (length bs)))) (emit (Recv bs) w0))) =
                trace w @ [Recv bs, Info (Received (int (length bs))),
                  Info (RequestLine (request_line (held ?c2)))]"
              by (simp add: emit_def tr)
            ultimately show thesis
              using True False l c f by (intro sniff [OF _ _ _ refl]) blast+
          next
            case f: False
            from recv_step_free [OF rc' False True]
            have "recv_step c w = Crash (?c2,
                  (emit (Info (Received (int (length bs)))) (emit (Recv bs) w0)))"
              by (simp only: c f simp_thms if_True if_False)
            moreover have "trace (emit (Info (Received (int (length bs)))) (emit (Recv bs) w0)) =
                trace w @ [Recv bs, Info (Received (int (length bs)))]"
              by (simp add: emit_def tr)
            ultimately show thesis
              using True False l c f by (intro crash [OF _ _ _ refl]) blast+
          qed
        next
          case c: False
          from recv_step_free [OF rc' False True]
          have "recv_step c w = Continue (?c2,
                (emit (Info (Received (int (length bs)))) (emit (Recv bs) w0)))"
            by (simp only: c simp_thms if_False)
          moreover have "trace (emit (Info (Received (int (length bs)))) (emit (Recv bs) w0)) =
              trace w @ [Recv bs, Info (Received (int (length bs)))]"
            by (simp add: emit_def tr)
          ultimately show thesis
            using True False l c by (intro plain [OF _ _ _ refl]) blast+
        qed
      next
        case nf: False
        with assms have u: "used c = BUFSZ"
          by simp
        with rc Bytes have rc': "read_call BUFSZ w = (Bytes bs, w0)"
          by simp
        from u len have "int (length bs) \<le> BUFSZ"
          by (simp add: BUFSZ_def)
        with recv_step_full [OF rc' False u] u False tr show thesis
          by (intro full) (auto simp: emit_def)
      qed
    qed
  qed
qed

lemma read_iter_cases:
  assumes "0 \<le> used c" "used c \<le> BUFSZ"
  obtains
    (idle) w1 where "read_iter r c w = Continue (c, w1)" "trace w1 = trace w @ [Select r]"
  | (selfail) e w1 where "read_iter r c w = Done (c, w1)" "e \<noteq> EINTR"
      "trace w1 = trace w @ [Select r, Error (SelectFailed e)]"
  | (eof) w1 where "read_iter r c w = Break (c\<lparr>eof := True\<rparr>, w1)"
      "trace w1 = trace w @ [Select r, Recv [], Info LogEof]"
  | (fatal) e w1 where "read_iter r c w = Done (c, w1)" "e \<noteq> EAGAIN" "e \<noteq> EINTR"
      "trace w1 = trace w @ [Select r, Error (ReadFailed e)]"
  | (plain) bs w1 c2 where "used c < BUFSZ" "bs \<noteq> []" "int (length bs) \<le> BUFSZ - used c"
      "c2 = c\<lparr>buf := store (nat (used c)) bs (buf c), used := used c + int (length bs)\<rparr>"
      "http c \<or> \<not> has_marker (held c2)"
      "read_iter r c w = Continue (c2, w1)"
      "trace w1 = trace w @ [Select r, Recv bs, Info (Received (int (length bs)))]"
  | (sniff) bs w1 c2 where "used c < BUFSZ" "bs \<noteq> []" "int (length bs) \<le> BUFSZ - used c"
      "c2 = c\<lparr>buf := store (nat (used c)) bs (buf c), used := used c + int (length bs)\<rparr>"
      "\<not> http c" "has_marker (held c2)"
      "log_fits (pid c) (''['' @ name c @ ''] '' @ request_line (held c2))"
      "read_iter r c w = Continue (c2\<lparr>http := True\<rparr>, w1)"
      "trace w1 = trace w @ [Select r, Recv bs, Info (Received (int (length bs))),
         Info (RequestLine (request_line (held c2)))]"
  | (crash) bs w1 c2 where "used c < BUFSZ" "bs \<noteq> []" "int (length bs) \<le> BUFSZ - used c"
      "c2 = c\<lparr>buf := store (nat (used c)) bs (buf c), used := used c + int (length bs)\<rparr>"
      "\<not> http c" "has_marker (held c2)"
      "\<not> log_fits (pid c) (''['' @ name c @ ''] '' @ request_line (held c2))"
      "read_iter r c w = Crash (c2, w1)"
      "trace w1 = trace w @ [Select r, Recv bs, Info (Received (int (length bs)))]"
  | (full) bs w1 where "used c = BUFSZ" "bs \<noteq> []" "int (length bs) \<le> BUFSZ"
      "read_iter r c w = Continue (c\<lparr>buf := store 0 bs (buf c)\<rparr>, w1)"
      "trace w1 = trace w @ [Select r, Recv bs, Info (Received (int (length bs)))]"
proof -
  obtain s w0 where sc: "select_call r w = (s, w0)"
    by (cases "select_call r w")
  from select_call_frame [OF sc] have tr: "trace w0 = trace w @ [Select r]"
    by simp
  show thesis
  proof (cases s)
    case TimedOut
    with sc tr show thesis
      by (intro idle [of w0]) (simp_all add: read_iter_def)
  next
    case (SelectErr e)
    show thesis
    proof (cases "e = EINTR")
      case True
      with SelectErr sc tr show thesis
        by (intro idle [of w0]) (simp_all add: read_iter_def)
    next
      case False
      with SelectErr sc tr show thesis
        by (intro selfail [of "emit (Error (SelectFailed e)) w0" e])
          (simp_all add: read_iter_def emit_def)
    qed
  next
    case Readable
    with sc have ri: "read_iter r c w = recv_step c w0"
      by (simp add: read_iter_def)
    show thesis
    proof (rule recv_step_cases [OF assms, where w = w0], goal_cases)
      case (1 w1)
      with ri tr show thesis by (intro eof [of w1]) simp_all
    next
      case (2 e w1)
      with ri tr show thesis by (intro fatal [of w1 e]) simp_all
    next
      case (3 w1)
      with ri tr show thesis by (intro idle [of w1]) simp_all
    next
      case (4 bs w1 c2)
      with ri tr show thesis by (intro plain [of bs c2 w1]) simp_all
    next
      case (5 bs w1 c2)
      with ri tr show thesis by (intro sniff [of bs c2 w1]) simp_all
    next
      case (6 bs w1 c2)
      with ri tr show thesis by (intro crash [of bs c2 w1]) simp_all
    next
      case (7 bs w1)
      with ri tr show thesis by (intro full [of bs w1]) simp_all
    qed
  qed
qed

section \<open>The count of held bytes\<close>

lemma read_iter_used:
  assumes "0 \<le> used c" "used c \<le> BUFSZ" "flow_state (read_iter r c w) = (c', w')"
  shows "used c \<le> used c' \<and> used c' \<le> BUFSZ \<and> (used c = BUFSZ \<longrightarrow> used c' = BUFSZ)"
  by (rule read_iter_cases [OF assms(1,2), where r = r and w = w]) (use assms in auto)

lemma send_header_used: "send_header c w = (c', w') \<Longrightarrow> used c' = used c \<and> http c' = http c \<and> buf c' = buf c"
  by (auto simp: send_header_def Let_def split: if_splits prod.splits)

lemma drain_iter_used:
  "flow_state (drain_iter r c w) = (c', w') \<Longrightarrow> used c' = used c \<and> http c' = http c"
  by (auto simp: drain_iter_def split: if_splits prod.splits read_result.splits)

lemma reachable_used: "reachable c \<Longrightarrow> 0 \<le> used c \<and> used c \<le> BUFSZ"
proof (induction rule: reachable.induct)
  case (r_init p nm garbage)
  show ?case by (simp add: conn0_def BUFSZ_def)
next
  case (r_read c r w c' w')
  with read_iter_used [of c r w c' w'] show ?case by simp
next
  case (r_header c w c' w')
  with send_header_used [of c w c' w'] show ?case by simp
next
  case (r_drain c r w c' w')
  with drain_iter_used [of r c w c' w'] show ?case by simp
qed

lemma read_loop_reachable:
  assumes "read_loop d c w = Some (Returned (x, c', w'))" "reachable c"
  shows "reachable c'"
  by (rule read_loop_invariant [OF assms(1), where I = "\<lambda>c w. reachable c"])
    (auto intro: assms(2) r_read)

lemma drain_loop_reachable:
  assumes "drain_loop d c w = Some (c', w')" "reachable c"
  shows "reachable c'"
  by (rule drain_loop_invariant [OF assms(1), where I = "\<lambda>c w. reachable c"])
    (auto intro: assms(2) r_drain)

section \<open>Sniffing\<close>







section \<open>Running the loops by hand\<close>


lemma read_loop_expired:
  "clock w = t # ts \<Longrightarrow> to_int32 (d - t) \<le> 0 \<Longrightarrow>
   read_loop d c w = Some (Returned (LoopEnd, c, w\<lparr>clock := ts, trace := trace w @ [Clock t]\<rparr>))"
  by (simp add: read_loop.simps [of d c w] time_call_def)

lemma read_loop_live:
  "clock w = t # ts \<Longrightarrow> 0 < to_int32 (d - t) \<Longrightarrow>
   read_loop d c w =
     (case read_iter (to_int32 (d - t)) c (w\<lparr>clock := ts, trace := trace w @ [Clock t]\<rparr>) of
        Continue (c', w') \<Rightarrow> read_loop d c' w'
      | Break (c', w') \<Rightarrow> Some (Returned (LoopEnd, c', w'))
      | Done (c', w') \<Rightarrow> Some (Returned (GotoDone, c', w'))
      | Crash (c', w') \<Rightarrow> Some (Crashed w'))"
  by (simp add: read_loop.simps [of d c w] time_call_def)


lemma drain_loop_expired:
  "clock w = t # ts \<Longrightarrow> to_int32 (d - t) \<le> 0 \<Longrightarrow>
   drain_loop d c w = Some (c, w\<lparr>clock := ts, trace := trace w @ [Clock t]\<rparr>)"
  by (simp add: drain_loop.simps [of d c w] time_call_def)

lemma drain_loop_live:
  "clock w = t # ts \<Longrightarrow> 0 < to_int32 (d - t) \<Longrightarrow>
   drain_loop d c w =
     (case drain_iter (to_int32 (d - t)) c (w\<lparr>clock := ts, trace := trace w @ [Clock t]\<rparr>) of
        Continue (c', w') \<Rightarrow> drain_loop d c' w'
      | Break (c', w') \<Rightarrow> Some (c', w')
      | Done (c', w') \<Rightarrow> Some (c', w')
      | Crash (c', w') \<Rightarrow> Some (c', w'))"
  by (simp add: drain_loop.simps [of d c w] time_call_def)

lemmas run_defs =
  respond_slowly_def fresh_def time_call_def read_loop.simps drain_loop.simps read_iter_def
  drain_iter_def nap_def select_call_def recv_step_def read_call_def emit_def to_int32_def
  BUFSZ_def has_marker_def held_def store_def http11_def http10_def send_header_def
  writestr_def status503_def content_type_def content_length_def hello_def
  drain_and_respond_def closing_def Let_def CR_def LF_def NUL_def request_line_def conn0_def
  zeros_def log_fits_def log_prefix_def LOGSZ_def NAMESZ_def peer_name_def decimal.simps


section \<open>The events of each phase\<close>

lemma sent_bytes_append [simp]: "sent_bytes (xs @ ys) = sent_bytes xs @ sent_bytes ys"
  by (simp add: sent_bytes_def)

lemma sent_bytes_Nil [simp]: "sent_bytes [] = []"
  by (simp add: sent_bytes_def)






lemma reading_not_closing:
  "list_all reading_event evs \<Longrightarrow>
   Shutdown \<notin> set evs \<and> Close \<notin> set evs \<and> Info Closed \<notin> set evs"
  by (auto simp: list_all_iff)

lemma draining_not_closing:
  "list_all draining_event evs \<Longrightarrow>
   Shutdown \<notin> set evs \<and> Close \<notin> set evs \<and> Info Closed \<notin> set evs"
  by (auto simp: list_all_iff)

lemma writing_not_closing:
  "list_all writing_event evs \<Longrightarrow>
   Shutdown \<notin> set evs \<and> Close \<notin> set evs \<and> Info Closed \<notin> set evs"
  by (auto simp: list_all_iff)

subsection \<open>writestr\<close>

lemma writestr_loop_events: "list_all writing_event (snd (snd (writestr_loop str ws)))"
  by (induction str ws rule: writestr_loop.induct)
    (auto split: write_result.splits prod.splits)

lemma writestr_loop_ret: "fst (writestr_loop str ws) = 0 \<or> fst (writestr_loop str ws) = - 1"
  by (induction str ws rule: writestr_loop.induct)
    (auto split: write_result.splits prod.splits)


lemma writestr_frame:
  "writestr str w = (r, w') \<Longrightarrow>
   trace w' = trace w @ snd (snd (writestr_loop str (writes w))) \<and>
   writes w' = fst (snd (writestr_loop str (writes w))) \<and>
   r = fst (writestr_loop str (writes w)) \<and>
   clock w' = clock w \<and> reads w' = reads w \<and> selects w' = selects w"
  by (auto simp: writestr_def split: prod.splits)

subsection \<open>One turn of a loop\<close>


lemma recv_step_frame:
  assumes "flow_state (recv_step c w) = (c1, w1)"
  shows "\<exists>evs. trace w1 = trace w @ evs \<and> list_all reading_event evs \<and>
    clock w1 = clock w \<and> writes w1 = writes w \<and> selects w1 = selects w"
proof -
  let ?n = "if BUFSZ - used c > 0 then BUFSZ - used c else BUFSZ"
  obtain rr w0 where rc: "read_call ?n w = (rr, w0)"
    by (cases "read_call ?n w")
  note fr = read_call_frame [OF rc]
  show ?thesis
  proof (cases rr)
    case (ReadErr e)
    with rc assms fr show ?thesis
      by (auto simp: recv_step_def Let_def emit_def split: if_splits)
  next
    case (Bytes bs)
    with rc assms fr show ?thesis
      by (auto simp: recv_step_def Let_def emit_def split: if_splits)
  qed
qed



lemma read_iter_frame:
  assumes "flow_state (read_iter r c w) = (c1, w1)"
  shows "\<exists>evs. trace w1 = trace w @ evs \<and> list_all reading_event evs \<and>
    clock w1 = clock w \<and> writes w1 = writes w"
proof -
  obtain s w0 where sc: "select_call r w = (s, w0)"
    by (cases "select_call r w")
  note fr = select_call_frame [OF sc]
  show ?thesis
  proof (cases s)
    case Readable
    with sc assms have "flow_state (recv_step c w0) = (c1, w1)"
      by (simp add: read_iter_def)
    from recv_step_frame [OF this] fr show ?thesis
      by auto
  next
    case TimedOut
    with sc assms fr show ?thesis
      by (auto simp: read_iter_def)
  next
    case (SelectErr e)
    with sc assms fr show ?thesis
      by (auto simp: read_iter_def emit_def split: if_splits)
  qed
qed


lemma drain_iter_frame:
  assumes "flow_state (drain_iter r c w) = (c1, w1)"
  shows "\<exists>evs. trace w1 = trace w @ evs \<and> list_all draining_event evs \<and>
    clock w1 = clock w \<and> writes w1 = writes w \<and> http c1 = http c \<and> used c1 = used c"
proof -
  obtain rr w0 where rc: "read_call BUFSZ w = (rr, w0)"
    by (cases "read_call BUFSZ w")
  note fr = read_call_frame [OF rc]
  show ?thesis
  proof (cases rr)
    case (ReadErr e)
    with rc assms fr show ?thesis
      by (auto simp: drain_iter_def nap_def emit_def split: if_splits)
  next
    case (Bytes bs)
    with rc assms fr show ?thesis
      by (auto simp: drain_iter_def nap_def emit_def split: if_splits)
  qed
qed


subsection \<open>The loops\<close>

lemma read_loop_events:
  assumes "read_loop d c w = Some (Returned (x, c', w'))"
  shows "\<exists>evs. trace w' = trace w @ evs \<and> list_all reading_event evs \<and> writes w' = writes w"
proof (rule read_loop_invariant [OF assms,
      where I = "\<lambda>c v. \<exists>evs. trace v = trace w @ evs \<and> list_all reading_event evs \<and>
        writes v = writes w"])
  show "\<exists>evs. trace w = trace w @ evs \<and> list_all reading_event evs \<and> writes w = writes w"
    by simp
next
  fix c v t v1
  assume "\<exists>evs. trace v = trace w @ evs \<and> list_all reading_event evs \<and> writes v = writes w"
    and "time_call v = Some (t, v1)"
  then show "\<exists>evs. trace v1 = trace w @ evs \<and> list_all reading_event evs \<and> writes v1 = writes w"
    by (auto dest!: time_call_frame)
next
  fix c v r c1 v1
  assume a: "\<exists>evs. trace v = trace w @ evs \<and> list_all reading_event evs \<and> writes v = writes w"
    and "flow_state (read_iter r c v) = (c1, v1)"
  from read_iter_frame [OF this(2)] a
  show "\<exists>evs. trace v1 = trace w @ evs \<and> list_all reading_event evs \<and> writes v1 = writes w"
    by auto
qed

lemma drain_loop_events:
  assumes "drain_loop d c w = Some (c', w')"
  shows "\<exists>evs. trace w' = trace w @ evs \<and> list_all draining_event evs \<and> writes w' = writes w \<and>
    http c' = http c \<and> used c' = used c"
proof (rule drain_loop_invariant [OF assms,
      where I = "\<lambda>k v. \<exists>evs. trace v = trace w @ evs \<and> list_all draining_event evs \<and>
        writes v = writes w \<and> http k = http c \<and> used k = used c"])
  show "\<exists>evs. trace w = trace w @ evs \<and> list_all draining_event evs \<and> writes w = writes w \<and>
      http c = http c \<and> used c = used c"
    by simp
next
  fix k :: conn and v t v1
  assume "\<exists>evs. trace v = trace w @ evs \<and> list_all draining_event evs \<and> writes v = writes w \<and>
      http k = http c \<and> used k = used c"
    and "time_call v = Some (t, v1)"
  then show "\<exists>evs. trace v1 = trace w @ evs \<and> list_all draining_event evs \<and>
      writes v1 = writes w \<and> http k = http c \<and> used k = used c"
    by (auto dest!: time_call_frame)
next
  fix k v r c1 v1
  assume a: "\<exists>evs. trace v = trace w @ evs \<and> list_all draining_event evs \<and> writes v = writes w \<and>
      http k = http c \<and> used k = used c"
    and "flow_state (drain_iter r k v) = (c1, v1)"
  from drain_iter_frame [OF this(2)] a
  show "\<exists>evs. trace v1 = trace w @ evs \<and> list_all draining_event evs \<and> writes v1 = writes w \<and>
      http c1 = http c \<and> used c1 = used c"
    by auto
qed




subsection \<open>The loops return when the clock passes the deadline\<close>

lemma read_iter_clock:
  "flow_state (read_iter r c w) = (c1, w1) \<Longrightarrow> clock w1 = clock w"
  using read_iter_frame by blast

lemma drain_iter_clock:
  "flow_state (drain_iter r c w) = (c1, w1) \<Longrightarrow> clock w1 = clock w"
  using drain_iter_frame by blast

lemma read_loop_returns:
  assumes "\<exists>t \<in> set (clock w). expired d t"
  shows "\<exists>out. read_loop d c w = Some out \<and>
    (\<forall>x c' w'. out = Returned (x, c', w') \<longrightarrow>
       (\<exists>pre a. clock w = pre @ a # clock w' \<and> (\<forall>t \<in> set pre. \<not> expired d t)))"
  using assms
proof (induction "clock w" arbitrary: c w)
  case Nil
  then show ?case by simp
next
  case (Cons t ts)
  let ?w1 = "w\<lparr>clock := ts, trace := trace w @ [Clock t]\<rparr>"
  from Cons(2) have cw: "clock w = t # ts"
    by simp
  have one: "\<exists>pre a. clock w = pre @ a # clock w1 \<and> (\<forall>t \<in> set pre. \<not> expired d t)"
    if "clock w1 = ts" for w1 :: world
  proof -
    from that cw have "clock w = [] @ t # clock w1 \<and> (\<forall>t \<in> set []. \<not> expired d t)"
      by simp
    then show ?thesis
      by blast
  qed
  show ?case
  proof (cases "expired d t")
    case True
    with cw read_loop_expired [of w t ts d c]
    have "read_loop d c w = Some (Returned (LoopEnd, c, ?w1))"
      by (simp add: expired_def)
    with one [of ?w1] show ?thesis
      by simp
  next
    case False
    then have live: "0 < to_int32 (d - t)"
      by (simp add: expired_def)
    note unf = read_loop_live [OF cw live, of c]
    show ?thesis
    proof (cases "read_iter (to_int32 (d - t)) c ?w1")
      case (Continue s)
      obtain c1 w1 where s: "s = (c1, w1)"
        by (cases s)
      with Continue read_iter_clock [of "to_int32 (d - t)" c ?w1 c1 w1] have c1: "clock w1 = ts"
        by simp
      from Cons.prems cw False have "\<exists>t \<in> set ts. expired d t"
        by auto
      with Cons(1) [of w1 c1] c1 obtain out
        where r: "read_loop d c1 w1 = Some out"
          "\<forall>x c' w'. out = Returned (x, c', w') \<longrightarrow>
             (\<exists>pre a. ts = pre @ a # clock w' \<and> (\<forall>t \<in> set pre. \<not> expired d t))"
        by auto
      have "\<exists>pre a. clock w = pre @ a # clock w' \<and> (\<forall>t \<in> set pre. \<not> expired d t)"
        if "out = Returned (x, c', w')" for x c' w'
      proof -
        from r(2) that obtain pre a
          where p: "ts = pre @ a # clock w'" "\<forall>t \<in> set pre. \<not> expired d t"
          by blast
        from p(1) cw have "clock w = (t # pre) @ a # clock w'"
          by simp
        moreover from p(2) False have "\<forall>u \<in> set (t # pre). \<not> expired d u"
          by simp
        ultimately show ?thesis
          by blast
      qed
      moreover from unf Continue s r(1) have "read_loop d c w = Some out"
        by simp
      ultimately show ?thesis
        by blast
    next
      case (Break s)
      obtain c1 w1 where s: "s = (c1, w1)"
        by (cases s)
      with Break read_iter_clock [of "to_int32 (d - t)" c ?w1 c1 w1] have "clock w1 = ts"
        by simp
      moreover from unf Break s have "read_loop d c w = Some (Returned (LoopEnd, c1, w1))"
        by simp
      ultimately show ?thesis
        using one [of w1] by simp
    next
      case (Done s)
      obtain c1 w1 where s: "s = (c1, w1)"
        by (cases s)
      with Done read_iter_clock [of "to_int32 (d - t)" c ?w1 c1 w1] have "clock w1 = ts"
        by simp
      moreover from unf Done s have "read_loop d c w = Some (Returned (GotoDone, c1, w1))"
        by simp
      ultimately show ?thesis
        using one [of w1] by simp
    next
      case (Crash s)
      with unf show ?thesis
        by (cases s) simp
    qed
  qed
qed

lemma drain_loop_returns:
  assumes "\<exists>t \<in> set (clock w). expired d t"
  shows "\<exists>c' w'. drain_loop d c w = Some (c', w')"
  using assms
proof (induction "clock w" arbitrary: c w)
  case Nil
  then show ?case by simp
next
  case (Cons t ts)
  let ?w1 = "w\<lparr>clock := ts, trace := trace w @ [Clock t]\<rparr>"
  from Cons(2) have cw: "clock w = t # ts"
    by simp
  show ?case
  proof (cases "expired d t")
    case True
    with cw drain_loop_expired [of w t ts d c] show ?thesis
      by (simp add: expired_def)
  next
    case False
    then have live: "0 < to_int32 (d - t)"
      by (simp add: expired_def)
    note unf = drain_loop_live [OF cw live, of c]
    show ?thesis
    proof (cases "drain_iter (to_int32 (d - t)) c ?w1")
      case (Continue s)
      obtain c1 w1 where s: "s = (c1, w1)"
        by (cases s)
      with Continue drain_iter_clock [of "to_int32 (d - t)" c ?w1 c1 w1] have c1: "clock w1 = ts"
        by simp
      from Cons.prems cw False have "\<exists>t \<in> set ts. expired d t"
        by auto
      with Cons(1) [of w1 c1] c1 unf Continue s show ?thesis
        by auto
    next
      case (Break s)
      with unf show ?thesis
        by (cases s) simp
    next
      case (Done s)
      with unf show ?thesis
        by (cases s) simp
    next
      case (Crash s)
      with unf show ?thesis
        by (cases s) simp
    qed
  qed
qed

subsection \<open>The answer\<close>

lemma send_header_frame:
  assumes "send_header c w = (c', w')"
  shows "\<exists>evs. trace w' = trace w @ evs \<and> list_all writing_event evs \<and>
    clock w' = clock w \<and> reads w' = reads w \<and> http c' = http c \<and> used c' = used c \<and>
    buf c' = buf c \<and> (eof c \<longrightarrow> eof c')"
proof (cases "http c")
  case False
  with assms show ?thesis
    by (simp add: send_header_def)
next
  case True
  obtain r1 w1 where a: "writestr status503 w = (r1, w1)"
    by (cases "writestr status503 w")
  obtain r2 w2 where b: "writestr content_type w1 = (r2, w2)"
    by (cases "writestr content_type w1")
  from writestr_frame [OF a] writestr_frame [OF b]
    writestr_loop_events [of status503 "writes w"] writestr_loop_events [of content_type "writes w1"]
  have "\<exists>evs. trace w2 = trace w @ evs \<and> list_all writing_event evs"
    and "clock w2 = clock w" "reads w2 = reads w"
    by auto
  with True a b assms show ?thesis
    by (auto simp: send_header_def Let_def emit_def split: if_splits)
qed


lemma drain_and_respond_frame:
  assumes "drain_and_respond d c w = Some w'"
  shows "\<exists>D F. trace w' = trace w @ D @ F \<and> list_all draining_event D \<and> list_all writing_event F"
proof (cases "eof c")
  case True
  with assms have "trace w' = trace w @ [] @ [] \<and> list_all draining_event [] \<and>
      list_all writing_event []"
    by (simp add: drain_and_respond_def)
  then show ?thesis
    by blast
next
  case False
  with assms obtain c1 w1 where dl: "drain_loop d c w = Some (c1, w1)"
    by (auto simp: drain_and_respond_def split: option.splits)
  from drain_loop_events [OF dl] obtain D
    where D: "trace w1 = trace w @ D" "list_all draining_event D"
    by blast
  show ?thesis
  proof (cases "eof c1")
    case True
    with False dl assms D have "trace w' = trace w @ D @ [] \<and> list_all writing_event []"
      by (simp add: drain_and_respond_def)
    with D(2) show ?thesis
      by blast
  next
    case ne: False
    let ?s = "if http c1 then content_length else hello"
    from False dl ne assms have w': "w' = snd (writestr ?s w1)"
      by (auto simp: drain_and_respond_def)
    obtain r w2 where ws: "writestr ?s w1 = (r, w2)"
      by (cases "writestr ?s w1")
    from writestr_frame [OF ws] w' ws D
    have "trace w' = trace w @ D @ snd (snd (writestr_loop ?s (writes w1)))"
      by simp
    with D(2) writestr_loop_events [of ?s "writes w1"] show ?thesis
      by blast
  qed
qed

lemma respond_slowly_start:
  assumes "respond_slowly d p h n g w = Some out"
  obtains (name) t0 w0 where "time_call w = Some (t0, w0)" "NAMESZ \<le> length (peer_name h n)"
      "out = Crashed (emit Lookup w0)"
  | (loop) t0 w0 lo where "time_call w = Some (t0, w0)" "length (peer_name h n) < NAMESZ"
      "read_loop (t0 + d) (conn0 p (peer_name h n) g)
         (emit Nonblock (emit (Info Connected) (emit Lookup w0))) = Some lo"
      "trace (emit Nonblock (emit (Info Connected) (emit Lookup w0))) =
         trace w @ [Clock t0, Lookup, Info Connected, Nonblock]"
      "clock (emit Nonblock (emit (Info Connected) (emit Lookup w0))) = tl (clock w)"
proof -
  from assms obtain t0 w0 where tc: "time_call w = Some (t0, w0)"
    by (auto simp: respond_slowly_def split: option.splits)
  let ?w1 = "emit Nonblock (emit (Info Connected) (emit Lookup w0))"
  from time_call_frame [OF tc]
  have t1: "trace ?w1 = trace w @ [Clock t0, Lookup, Info Connected, Nonblock]"
    and c1: "clock ?w1 = tl (clock w)"
    by (simp_all add: emit_def)
  show thesis
  proof (cases "NAMESZ \<le> length (peer_name h n)")
    case True
    with assms tc show thesis
      by (intro name [of t0 w0]) (simp_all add: respond_slowly_def Let_def)
  next
    case False
    with assms tc obtain lo
      where "read_loop (t0 + d) (conn0 p (peer_name h n) g) ?w1 = Some lo"
      by (auto simp: respond_slowly_def Let_def split: option.splits)
    with False tc t1 c1 show thesis
      by (intro loop [of t0 w0 lo]) simp_all
  qed
qed

lemma respond_slowly_phases:
  assumes "respond_slowly d p h n g w = Some (Returned w')"
  shows "\<exists>t0 R H D F. trace w' = trace w @ [Clock t0, Lookup, Info Connected, Nonblock] @
      R @ H @ D @ F @ [Shutdown, Close, Info Closed] \<and>
    list_all reading_event R \<and> list_all writing_event H \<and> list_all draining_event D \<and>
    list_all writing_event F"
proof (rule respond_slowly_start [OF assms], goal_cases)
  case (1 t0 w0)
  then show ?case by simp
next
  case (2 t0 w0 lo)
  let ?w1 = "emit Nonblock (emit (Info Connected) (emit Lookup w0))"
  let ?c0 = "conn0 p (peer_name h n) g"
  note tc = 2(1) and nm = 2(2) and t1 = 2(4)
  from assms tc nm 2(3) obtain x c w2 where lo: "lo = Returned (x, c, w2)"
    by (cases lo) (auto simp: respond_slowly_def Let_def)
  with 2(3) have rl: "read_loop (t0 + d) ?c0 ?w1 = Some (Returned (x, c, w2))"
    by simp
  from read_loop_events [OF rl] obtain R
    where R: "trace w2 = trace ?w1 @ R" "list_all reading_event R"
    by blast
  show ?case
  proof (cases x)
    case GotoDone
    with assms tc nm rl have "w' = closing w2"
      by (simp add: respond_slowly_def Let_def)
    with R t1 have "trace w' = trace w @ [Clock t0, Lookup, Info Connected, Nonblock] @
        R @ [] @ [] @ [] @ [Shutdown, Close, Info Closed] \<and>
        list_all writing_event [] \<and> list_all draining_event []"
      by (simp add: closing_def emit_def)
    with R(2) show ?thesis
      by blast
  next
    case LoopEnd
    obtain c3 w3 where sh: "send_header c w2 = (c3, w3)"
      by (cases "send_header c w2")
    from send_header_frame [OF sh] obtain H
      where H: "trace w3 = trace w2 @ H" "list_all writing_event H"
      by blast
    from assms tc nm rl LoopEnd sh obtain w4
      where dr: "drain_and_respond (t0 + d) c3 w3 = Some w4" and w': "w' = closing w4"
      by (auto simp: respond_slowly_def Let_def)
    from drain_and_respond_frame [OF dr] obtain D F
      where DF: "trace w4 = trace w3 @ D @ F" "list_all draining_event D" "list_all writing_event F"
      by blast
    from w' DF(1) H(1) R(1) t1
    have "trace w' = trace w @ [Clock t0, Lookup, Info Connected, Nonblock] @ R @ H @ D @ F @
        [Shutdown, Close, Info Closed]"
      by (simp add: closing_def emit_def)
    with R(2) H(2) DF(2,3) show ?thesis
      by blast
  qed
qed

lemma respond_slowly_returns:
  assumes "clock w = t0 # ts" "2 \<le> length (filter (expired (t0 + d)) ts)"
  shows "\<exists>out. respond_slowly d p h n g w = Some out"
proof (cases "NAMESZ \<le> length (peer_name h n)")
  case True
  with assms(1) show ?thesis
    by (simp add: respond_slowly_def time_call_def Let_def)
next
  case nm: False
  let ?w0 = "w\<lparr>clock := ts, trace := trace w @ [Clock t0]\<rparr>"
  let ?w1 = "emit Nonblock (emit (Info Connected) (emit Lookup ?w0))"
  let ?c0 = "conn0 p (peer_name h n) g"
  from assms(1) have tc: "time_call w = Some (t0, ?w0)"
    by (simp add: time_call_def)
  have c1: "clock ?w1 = ts"
    by (simp add: emit_def)
  from assms(2) have "filter (expired (t0 + d)) ts \<noteq> []"
    by auto
  then have "\<exists>t \<in> set (clock ?w1). expired (t0 + d) t"
    unfolding c1 by (simp add: filter_empty_conv)
  from read_loop_returns [OF this, of ?c0] obtain out
    where rl: "read_loop (t0 + d) ?c0 ?w1 = Some out"
      and cl: "\<And>x c' w'. out = Returned (x, c', w') \<Longrightarrow>
        \<exists>pre a. clock ?w1 = pre @ a # clock w' \<and> (\<forall>t \<in> set pre. \<not> expired (t0 + d) t)"
    by blast
  show ?thesis
  proof (cases out)
    case (Crashed w2)
    with tc nm rl show ?thesis
      by (simp add: respond_slowly_def Let_def)
  next
    case (Returned s)
    obtain x c w2 where s: "s = (x, c, w2)"
      by (cases s)
    from cl [of x c w2] Returned s obtain pre a
      where cl': "clock ?w1 = pre @ a # clock w2" "\<forall>t \<in> set pre. \<not> expired (t0 + d) t"
      by blast
    show ?thesis
    proof (cases x)
      case GotoDone
      with tc nm rl Returned s show ?thesis
        by (simp add: respond_slowly_def Let_def)
    next
      case LoopEnd
      obtain c3 w3 where sh: "send_header c w2 = (c3, w3)"
        by (cases "send_header c w2")
      from send_header_frame [OF sh] have c3: "clock w3 = clock w2"
        by blast
      from cl'(2) have "filter (expired (t0 + d)) pre = []"
        by (simp add: filter_empty_conv)
      with cl'(1) c1 have "filter (expired (t0 + d)) ts = filter (expired (t0 + d)) (a # clock w2)"
        by simp
      with assms(2) have "filter (expired (t0 + d)) (clock w2) \<noteq> []"
        by (auto split: if_splits)
      then have "\<exists>t \<in> set (clock w3). expired (t0 + d) t"
        unfolding c3 by (simp add: filter_empty_conv)
      from drain_loop_returns [OF this, of c3] obtain c4 w4
        where "drain_loop (t0 + d) c3 w3 = Some (c4, w4)"
        by blast
      then have "\<exists>w5. drain_and_respond (t0 + d) c3 w3 = Some w5"
        by (simp add: drain_and_respond_def)
      with tc nm rl Returned s LoopEnd sh show ?thesis
        by (auto simp: respond_slowly_def Let_def)
    qed
  qed
qed

section \<open>The log line of the request\<close>

lemma stream_simps [simp]:
  "stream [] = []"
  "stream (Bytes bs # rs) = bs @ stream rs"
  "stream (ReadErr e # rs) = stream rs"
  by (simp_all add: stream_def)









section \<open>The events of the reading loop, whichever way it ends\<close>

lemma read_loop_ended:
  assumes "read_loop d c w = Some out"
  shows "\<exists>evs. trace (ended out) = trace w @ evs \<and> list_all reading_event evs \<and>
    writes (ended out) = writes w"
proof (rule read_loop_outcome_rule [OF assms,
      where I = "\<lambda>c v. \<exists>evs. trace v = trace w @ evs \<and> list_all reading_event evs \<and>
        writes v = writes w"
      and J = "\<lambda>t c v. \<exists>evs. trace v = trace w @ evs \<and> list_all reading_event evs \<and>
        writes v = writes w"], goal_cases)
  case 1
  show ?case by simp
next
  case (2 c v t v1)
  then show ?case
    by (auto dest!: time_call_frame)
next
  case (3 c v t)
  then show ?case by simp
next
  case (4 c v t c1 v1)
  then have "flow_state (read_iter (to_int32 (d - t)) c v) = (c1, v1)"
    by simp
  from read_iter_frame [OF this] 4(1) show ?case
    by auto
next
  case (5 c v t c1 v1)
  then have "flow_state (read_iter (to_int32 (d - t)) c v) = (c1, v1)"
    by simp
  from read_iter_frame [OF this] 5(1) show ?case
    by auto
next
  case (6 c v t c1 v1)
  then have "flow_state (read_iter (to_int32 (d - t)) c v) = (c1, v1)"
    by simp
  from read_iter_frame [OF this] 6(1) show ?case
    by auto
next
  case (7 c v t c1 v1)
  then have "flow_state (read_iter (to_int32 (d - t)) c v) = (c1, v1)"
    by simp
  from read_iter_frame [OF this] 7(1) show ?case
    by auto
qed

section \<open>C7\<close>

lemma recv_step_used:
  assumes "0 \<le> used c" "used c \<le> BUFSZ" "flow_state (recv_step c w) = (c', w')"
  shows "used c \<le> used c' \<and> used c' \<le> BUFSZ \<and> (used c = BUFSZ \<longrightarrow> used c' = BUFSZ)"
  by (rule recv_step_cases [OF assms(1,2), where w = w]) (use assms in auto)

lemma recv_step_reads:
  "flow_state (recv_step c w) = (c', w') \<Longrightarrow>
   reads w' = reads (snd (read_call (if BUFSZ - used c > 0 then BUFSZ - used c else BUFSZ) w))"
  by (auto simp: recv_step_def Let_def emit_def split: prod.splits read_result.splits if_splits)

text \<open>
  C7. In every state that a connection can reach the count of held bytes lies between 0
  and the capacity of 4096. A receive never lowers the count and raises it by at most the
  space that was left; with a full buffer it leaves the count as it is, and the
  \<^verbatim>\<open>read\<close> call is still made, for 4096 bytes. The states at the end of the
  two loops are states of this kind.
\<close>

theorem C7_held_count_bounded:
  assumes "reachable c"
  shows "BUFSZ = 4096 \<and> 0 \<le> used c \<and> used c \<le> BUFSZ \<and>
    (\<forall>w c' w'. flow_state (recv_step c w) = (c', w') \<longrightarrow>
       used c \<le> used c' \<and> used c' \<le> used c + (BUFSZ - used c) \<and>
       (used c = BUFSZ \<longrightarrow>
          used c' = used c \<and> reads w' = reads (snd (read_call BUFSZ w)))) \<and>
    (\<forall>d w x c' w'. read_loop d c w = Some (Returned (x, c', w')) \<longrightarrow> reachable c') \<and>
    (\<forall>d w c' w'. drain_loop d c w = Some (c', w') \<longrightarrow> reachable c')"
proof -
  from reachable_used [OF assms] have b: "0 \<le> used c" "used c \<le> BUFSZ"
    by simp_all
  have "used c \<le> used c' \<and> used c' \<le> used c + (BUFSZ - used c) \<and>
       (used c = BUFSZ \<longrightarrow> used c' = used c \<and> reads w' = reads (snd (read_call BUFSZ w)))"
    if "flow_state (recv_step c w) = (c', w')" for w c' w'
    using recv_step_used [OF b that] recv_step_reads [OF that] by auto
  with b read_loop_reachable [OF _ assms] drain_loop_reachable [OF _ assms] show ?thesis
    by (auto simp: BUFSZ_def)
qed

theorem C7_held_count_bounded_witness:
  "reachable (fst (flow_state (read_iter 5 (conn0 4242 ''peer:80'' zeros) (fresh [] [Readable] [Bytes ''abc''] [])))) \<and>
   used (fst (flow_state (read_iter 5 (conn0 4242 ''peer:80'' zeros) (fresh [] [Readable] [Bytes ''abc''] [])))) = 3 \<and>
   used (fst (flow_state (read_iter 5 (conn0 4242 ''peer:80'' zeros) (fresh [] [Readable] [Bytes ''abc''] [])))) \<le> BUFSZ"
proof -
  let ?c = "fst (flow_state (read_iter 5 (conn0 4242 ''peer:80'' zeros) (fresh [] [Readable] [Bytes ''abc''] [])))"
  have r: "reachable ?c"
    by (rule r_read [OF r_init [of 4242 "''peer:80''" zeros], where r = 5
          and w = "fresh [] [Readable] [Bytes ''abc''] []"
          and w' = "snd (flow_state (read_iter 5 (conn0 4242 ''peer:80'' zeros) (fresh [] [Readable] [Bytes ''abc''] [])))"])
      simp
  have "used ?c = 3"
    by (simp add: run_defs)
  with r C7_held_count_bounded [OF r] show ?thesis
    by simp
qed

section \<open>C6\<close>

lemma held_overwritten:
  assumes "used c = BUFSZ" "int (length got) \<le> BUFSZ"
  shows "held (c\<lparr>buf := store 0 got (buf c)\<rparr>) = got @ drop (length got) (held c)"
proof (rule nth_equalityI)
  from assms show "length (held (c\<lparr>buf := store 0 got (buf c)\<rparr>)) =
      length (got @ drop (length got) (held c))"
    by (simp add: held_def)
next
  fix i
  assume "i < length (held (c\<lparr>buf := store 0 got (buf c)\<rparr>))"
  then have i: "i < nat BUFSZ"
    using assms by (simp add: held_def)
  show "held (c\<lparr>buf := store 0 got (buf c)\<rparr>) ! i = (got @ drop (length got) (held c)) ! i"
  proof (cases "i < length got")
    case True
    with i assms show ?thesis
      by (simp add: held_def store_def nth_append)
  next
    case False
    with i assms show ?thesis
      by (simp add: held_def store_def nth_append)
  qed
qed

text \<open>
  C6, as the code has it. With a full buffer a receive of data still takes up to 4096
  bytes from the socket, but it reads them into the buffer itself, from its start: the
  count of held bytes and the two flags stay as they are, nothing is logged but the
  count, and of the held bytes the first \<open>n\<close> are overwritten by the \<open>n\<close> bytes
  received, the others are left as they were.
\<close>

theorem C6_full_buffer_receive:
  assumes "used c = BUFSZ" "reads w = Bytes bs # rs" "bs \<noteq> []"
  shows "\<exists>w'. recv_step c w =
        Continue (c\<lparr>buf := store 0 (take (nat BUFSZ) bs) (buf c)\<rparr>, w') \<and>
     reads w' = (if drop (nat BUFSZ) bs = [] then rs else Bytes (drop (nat BUFSZ) bs) # rs) \<and>
     trace w' = trace w @
        [Recv (take (nat BUFSZ) bs), Info (Received (int (length (take (nat BUFSZ) bs))))] \<and>
     held (c\<lparr>buf := store 0 (take (nat BUFSZ) bs) (buf c)\<rparr>) =
        take (nat BUFSZ) bs @ drop (length (take (nat BUFSZ) bs)) (held c)"
proof -
  let ?got = "take (nat BUFSZ) bs"
  let ?w1 = "w\<lparr>reads := (if drop (nat BUFSZ) bs = [] then rs else Bytes (drop (nat BUFSZ) bs) # rs)\<rparr>"
  from assms(2) have rc: "read_call BUFSZ w = (Bytes ?got, ?w1)"
    by (simp add: read_call_def)
  from assms(3) have ne: "?got \<noteq> []"
    by (simp add: BUFSZ_def)
  have len: "int (length ?got) \<le> BUFSZ"
    by (simp add: BUFSZ_def)
  from recv_step_full [OF rc ne assms(1)] held_overwritten [OF assms(1) len]
  show ?thesis
    by (simp add: emit_def)
qed

theorem C6_full_buffer_receive_witness:
  "\<exists>w'. recv_step \<lparr>pid = 4242, name = ''peer:80'', buf = zeros, used = BUFSZ, http = False, eof = False\<rparr>
           (fresh [] [] [Bytes ''b''] []) =
         Continue (\<lparr>pid = 4242, name = ''peer:80'', buf = store 0 ''b'' zeros, used = BUFSZ,
            http = False, eof = False\<rparr>, w') \<and>
       reads w' = [] \<and> trace w' = [Recv ''b'', Info (Received 1)]"
  using C6_full_buffer_receive [of "\<lparr>pid = 4242, name = ''peer:80'', buf = zeros, used = BUFSZ, http = False, eof = False\<rparr>"
      "fresh [] [] [Bytes ''b''] []" "''b''" "[]"]
  by (auto simp: fresh_def BUFSZ_def)

lemma memmem_replicate: "pat \<noteq> [] \<Longrightarrow> a \<notin> set pat \<Longrightarrow> \<not> memmem (replicate n a) pat"
proof (induction n)
  case 0
  then show ?case by simp
next
  case (Suc n)
  then obtain p ps where pat: "pat = p # ps"
    by (cases pat) auto
  with Suc.prems have "take (length pat) (a # replicate n a) \<noteq> pat"
    by auto
  with Suc show ?case
    by simp
qed

lemma has_marker_replicate_a: "\<not> has_marker (replicate n (CHR ''a''))"
  by (simp add: has_marker_def memmem_replicate http10_def http11_def CR_def LF_def)

lemma held_conn0: "held (conn0 p nm g) = []"
  by (simp add: held_def conn0_def)

text \<open>The first turn of the two runs: 4096 bytes fill the buffer.\<close>

lemma fill_turn:
  assumes "reads w = Bytes (replicate 4096 (CHR ''a'')) # rs" "selects w = Readable # ss"
  shows "read_iter r (conn0 p nm zeros) w =
    Continue (conn0 p nm zeros\<lparr>buf := store 0 (replicate 4096 (CHR ''a'')) zeros, used := 4096\<rparr>,
      w\<lparr>selects := ss, reads := rs,
        trace := trace w @ [Select r, Recv (replicate 4096 (CHR ''a'')), Info (Received 4096)]\<rparr>)"
proof -
  let ?A = "replicate 4096 (CHR ''a'')"
  let ?ws = "w\<lparr>selects := ss, trace := trace w @ [Select r]\<rparr>"
  let ?c2 = "(conn0 p nm zeros)\<lparr>buf := store (nat (used (conn0 p nm zeros))) ?A (buf (conn0 p nm zeros)),
      used := used (conn0 p nm zeros) + int (length ?A)\<rparr>"
  from assms(2) have ri: "read_iter r (conn0 p nm zeros) w = recv_step (conn0 p nm zeros) ?ws"
    by (simp add: read_iter_def select_call_def emit_def)
  from assms(1) have rc: "read_call (BUFSZ - used (conn0 p nm zeros)) ?ws = (Bytes ?A, ?ws\<lparr>reads := rs\<rparr>)"
    by (simp add: read_call_def BUFSZ_def conn0_def)
  have ne: "?A \<noteq> []"
    by simp
  have lt: "used (conn0 p nm zeros) < BUFSZ"
    by (simp add: conn0_def BUFSZ_def)
  have "held ?c2 = held (conn0 p nm zeros) @ ?A"
    by (rule held_store_append) (simp add: conn0_def)
  then have nm: "\<not> has_marker (held ?c2)"
    by (simp add: held_conn0 has_marker_replicate_a)
  from recv_step_free [OF rc ne lt] nm
  have "recv_step (conn0 p nm zeros) ?ws =
      Continue (?c2, emit (Info (Received (int (length ?A)))) (emit (Recv ?A) (?ws\<lparr>reads := rs\<rparr>)))"
    by (simp only: simp_thms if_False)
  with ri show ?thesis
    by (simp add: emit_def conn0_def)
qed

lemma full_turn:
  assumes "reads w = Bytes bs # rs" "selects w = Readable # ss" "used c = BUFSZ"
    and "bs \<noteq> []" "length bs \<le> 4096"
  shows "read_iter r c w =
    Continue (c\<lparr>buf := store 0 bs (buf c)\<rparr>,
      w\<lparr>selects := ss, reads := rs,
        trace := trace w @ [Select r, Recv bs, Info (Received (int (length bs)))]\<rparr>)"
proof -
  let ?ws = "w\<lparr>selects := ss, trace := trace w @ [Select r]\<rparr>"
  from assms(2) have ri: "read_iter r c w = recv_step c ?ws"
    by (simp add: read_iter_def select_call_def emit_def)
  from assms(1,5) have rc: "read_call BUFSZ ?ws = (Bytes bs, ?ws\<lparr>reads := rs\<rparr>)"
    by (simp add: read_call_def BUFSZ_def)
  from recv_step_full [OF rc assms(4,3)] ri show ?thesis
    by (simp add: emit_def)
qed

lemma held_first: "0 < used c \<Longrightarrow> held c ! 0 = buf c 0"
  by (simp add: held_def)

text \<open>
  C6 as the spec words it fails: the held bytes are disturbed. After 4096 bytes
  \<^verbatim>\<open>a\<close> the first held byte is \<^verbatim>\<open>a\<close>; one more receive, of the byte
  \<^verbatim>\<open>b\<close>, and the first held byte is \<^verbatim>\<open>b\<close>.
\<close>

theorem C6_held_bytes_overwritten_counterexample:
  "held_byte 0 (read_loop 105 (conn0 4242 ''peer:80'' zeros)
      (fresh [100, 105] [Readable] [Bytes (replicate 4096 (CHR ''a''))] [])) = Some (CHR ''a'') \<and>
   held_byte 0 (read_loop 105 (conn0 4242 ''peer:80'' zeros)
      (fresh [100, 100, 105] [Readable, Readable]
         [Bytes (replicate 4096 (CHR ''a'')), Bytes ''b''] [])) = Some (CHR ''b'')"
proof
  let ?A = "replicate 4096 (CHR ''a'')"
  let ?c1 = "conn0 4242 ''peer:80'' zeros\<lparr>buf := store 0 ?A zeros, used := 4096\<rparr>"
  have five: "to_int32 5 = 5" "to_int32 0 = 0"
    by (simp_all add: to_int32_def)
  show "held_byte 0 (read_loop 105 (conn0 4242 ''peer:80'' zeros) (fresh [100, 105] [Readable] [Bytes ?A] [])) =
      Some (CHR ''a'')"
    by (simp add: read_loop_live [where t = 100 and ts = "[105]"] five fresh_def
        fill_turn [where rs = "[]" and ss = "[]"]
        read_loop_expired [where t = 105 and ts = "[]"] held_byte_def held_first store_def)
  show "held_byte 0 (read_loop 105 (conn0 4242 ''peer:80'' zeros)
      (fresh [100, 100, 105] [Readable, Readable] [Bytes ?A, Bytes ''b''] [])) = Some (CHR ''b'')"
    by (simp add: read_loop_live [where t = 100 and ts = "[100, 105]"]
        read_loop_live [where t = 100 and ts = "[105]"] five fresh_def
        fill_turn [where rs = "[Bytes ''b'']" and ss = "[Readable]"]
        full_turn [where bs = "''b''" and rs = "[]" and ss = "[]"] BUFSZ_def
        read_loop_expired [where t = 105 and ts = "[]"] held_byte_def held_first store_def)
qed





section \<open>C4 and C1\<close>

lemma count_list_notin: "x \<notin> set xs \<Longrightarrow> count_list xs x = 0"
  by (induction xs) auto

text \<open>
  Every run of \<^verbatim>\<open>respond_slowly\<close> that returns ends with the shutdown of both
  directions, the close of the socket and the log line of the close, in this order, and
  none of the three happens before: each happens exactly once, whichever way the run
  went.
\<close>

lemma returning_run_closes_once:
  assumes "respond_slowly d p h n g w = Some (Returned w')"
  shows "\<exists>evs. trace w' = trace w @ evs @ [Shutdown, Close, Info Closed] \<and>
    Shutdown \<notin> set evs \<and> Close \<notin> set evs \<and> Info Closed \<notin> set evs \<and>
    count_list (evs @ [Shutdown, Close, Info Closed]) Shutdown = 1 \<and>
    count_list (evs @ [Shutdown, Close, Info Closed]) Close = 1 \<and>
    count_list (evs @ [Shutdown, Close, Info Closed]) (Info Closed) = 1"
proof -
  from respond_slowly_phases [OF assms] obtain t R H D F
    where tr: "trace w' = trace w @ [Clock t, Lookup, Info Connected, Nonblock] @ R @ H @ D @ F @
        [Shutdown, Close, Info Closed]"
      and ev: "list_all reading_event R" "list_all writing_event H" "list_all draining_event D"
        "list_all writing_event F"
    by blast
  let ?evs = "[Clock t, Lookup, Info Connected, Nonblock] @ R @ H @ D @ F"
  from reading_not_closing [OF ev(1)] writing_not_closing [OF ev(2)]
    draining_not_closing [OF ev(3)] writing_not_closing [OF ev(4)]
  have no: "Shutdown \<notin> set ?evs" "Close \<notin> set ?evs" "Info Closed \<notin> set ?evs"
    by auto
  from tr have "trace w' = trace w @ ?evs @ [Shutdown, Close, Info Closed]"
    by simp
  moreover from no have "count_list (?evs @ [Shutdown, Close, Info Closed]) Shutdown = 1"
    "count_list (?evs @ [Shutdown, Close, Info Closed]) Close = 1"
    "count_list (?evs @ [Shutdown, Close, Info Closed]) (Info Closed) = 1"
    by (simp_all only: count_list_append count_list_notin) simp_all
  ultimately show ?thesis
    using no by blast
qed

text \<open>
  A run in which the process dies closes nothing: its trace has the events of the start
  and of the reading loop only.
\<close>

lemma crashing_run_closes_nothing:
  assumes "respond_slowly d p h n g w = Some (Crashed w')"
  shows "\<exists>evs. trace w' = trace w @ evs \<and>
    Shutdown \<notin> set evs \<and> Close \<notin> set evs \<and> Info Closed \<notin> set evs"
proof (rule respond_slowly_start [OF assms], goal_cases)
  case (1 t0 w0)
  from time_call_frame [OF 1(1)] 1(3) have "trace w' = trace w @ [Clock t0, Lookup]"
    by (simp add: emit_def)
  then show ?case
    by simp
next
  case (2 t0 w0 lo)
  let ?w1 = "emit Nonblock (emit (Info Connected) (emit Lookup w0))"
  from read_loop_ended [OF 2(3)] obtain R
    where R: "trace (ended lo) = trace ?w1 @ R" "list_all reading_event R"
    by blast
  have "lo = Crashed w'"
  proof (cases lo)
    case (Crashed v)
    with assms 2(1,2,3) show ?thesis
      by (simp add: respond_slowly_def Let_def)
  next
    case (Returned s)
    obtain x c v where "s = (x, c, v)"
      by (cases s)
    with Returned assms 2(1,2,3) show ?thesis
      by (cases x) (auto simp: respond_slowly_def Let_def split: prod.splits)
  qed
  with R 2(4) have "trace w' = trace w @ [Clock t0, Lookup, Info Connected, Nonblock] @ R"
    by simp
  with reading_not_closing [OF R(2)] show ?case
    by auto
qed

text \<open>A turn of the reading loop in which the request line is too long for the log.\<close>

lemma crash_turn:
  assumes "reads w = Bytes bs # rs" "selects w = Readable # ss"
    and "used c = 0" "\<not> http c" "bs \<noteq> []" "length bs \<le> 4096" "has_marker bs"
    and "\<not> log_fits (pid c) (''['' @ name c @ ''] '' @ request_line bs)"
  shows "read_iter r c w =
    Crash (c\<lparr>buf := store 0 bs (buf c), used := int (length bs)\<rparr>,
      w\<lparr>selects := ss, reads := rs,
        trace := trace w @ [Select r, Recv bs, Info (Received (int (length bs)))]\<rparr>)"
proof -
  let ?ws = "w\<lparr>selects := ss, trace := trace w @ [Select r]\<rparr>"
  let ?c2 = "c\<lparr>buf := store (nat (used c)) bs (buf c), used := used c + int (length bs)\<rparr>"
  from assms(2) have ri: "read_iter r c w = recv_step c ?ws"
    by (simp add: read_iter_def select_call_def emit_def)
  from assms(1,3,6) have rc: "read_call (BUFSZ - used c) ?ws = (Bytes bs, ?ws\<lparr>reads := rs\<rparr>)"
    by (simp add: read_call_def BUFSZ_def)
  from assms(3) have lt: "used c < BUFSZ"
    by (simp add: BUFSZ_def)
  from assms(3) have "held c = []"
    by (simp add: held_def)
  moreover have "held ?c2 = held c @ bs"
    by (rule held_store_append) (simp add: assms(3))
  ultimately have h2: "held ?c2 = bs"
    by simp
  from recv_step_free [OF rc assms(5) lt] assms(4,7,8) h2
  have "recv_step c ?ws =
      Crash (?c2, emit (Info (Received (int (length bs)))) (emit (Recv bs) (?ws\<lparr>reads := rs\<rparr>)))"
    by (simp only: simp_thms if_True if_False)
  with ri assms(3) show ?thesis
    by (simp add: emit_def)
qed

lemma long_request_facts:
  "long_request \<noteq> []" "length long_request = 516" "has_marker long_request"
  "length (request_line long_request) = 514"
proof -
  show "long_request \<noteq> []" "length long_request = 516"
    by (simp_all add: long_request_def http11_def)
  have "long_request = (''GET /'' @ replicate 500 (CHR ''a'') @ '' '') @ http11 @ []"
    by (simp add: long_request_def)
  then show "has_marker long_request"
    unfolding has_marker_iff by blast
  have "takeWhile P (replicate 500 (CHR ''a'') @ ys) =
      replicate 500 (CHR ''a'') @ takeWhile P ys" if "P (CHR ''a'')" for P ys
    by (rule takeWhile_append2) (simp add: that)
  then have "request_line long_request = ''GET /'' @ replicate 500 (CHR ''a'') @ '' HTTP/1.1''"
    by (simp add: long_request_def request_line_def http11_def CR_def NUL_def)
  then show "length (request_line long_request) = 514"
    by simp
qed

lemma long_request_crashes:
  "crashed (respond_slowly 5 4242 ''peer'' 80 zeros
     (fresh [100, 100] [Readable] [Bytes long_request] [])) =
   Some \<lparr>clock = [], selects = [], reads = [], writes = [],
     trace = [Clock 100, Lookup, Info Connected, Nonblock, Clock 100, Select 5,
       Recv long_request, Info (Received 516)]\<rparr>"
proof -
  let ?w = "\<lparr>clock = [100], selects = [Readable], reads = [Bytes long_request], writes = [],
     trace = [Clock 100, Lookup, Info Connected, Nonblock]\<rparr>"
  let ?c = "conn0 4242 (peer_name ''peer'' 80) zeros"
  have five: "to_int32 5 = 5"
    by (simp add: to_int32_def)
  have nf: "\<not> log_fits (pid ?c) (''['' @ name ?c @ ''] '' @ request_line long_request)"
    by (simp add: log_fits_def LOGSZ_def long_request_facts)
  have "read_iter 5 ?c (?w\<lparr>clock := [], trace := trace ?w @ [Clock 100]\<rparr>) =
      Crash (?c\<lparr>buf := store 0 long_request (buf ?c), used := int (length long_request)\<rparr>,
        \<lparr>clock = [], selects = [], reads = [], writes = [],
          trace = [Clock 100, Lookup, Info Connected, Nonblock, Clock 100, Select 5,
            Recv long_request, Info (Received 516)]\<rparr>)"
    using crash_turn [where w = "?w\<lparr>clock := [], trace := trace ?w @ [Clock 100]\<rparr>"
        and c = ?c and bs = long_request and rs = "[]" and ss = "[]" and r = 5] nf
    by (simp add: long_request_facts conn0_def)
  then have "read_loop 105 ?c ?w = Some (Crashed \<lparr>clock = [], selects = [], reads = [],
      writes = [], trace = [Clock 100, Lookup, Info Connected, Nonblock, Clock 100, Select 5,
        Recv long_request, Info (Received 516)]\<rparr>)"
    by (simp add: read_loop_live [where t = 100 and ts = "[]"] five)
  moreover have "length (peer_name ''peer'' 80) < NAMESZ"
    by (simp add: peer_name_def NAMESZ_def decimal.simps)
  ultimately show ?thesis
    by (simp add: crashed_def respond_slowly_def fresh_def time_call_def Let_def emit_def)
qed

text \<open>
  C4 fails on the code for a peer whose request line is long. The peer sends a request
  of 516 bytes, with a marker at the end of a first line of 514 bytes. The reading loop
  finds the marker and logs the line: \<^verbatim>\<open>dolog\<close> formats it into its array of 512 bytes
  with \<^verbatim>\<open>vsprintf\<close> (line 36), which writes beyond the array, and the process dies
  there. The trace of the run ends with the receive: the socket is not shut down and not
  closed by \<^verbatim>\<open>respond_slowly\<close>, and no close is logged.
\<close>

theorem C4_long_request_line_is_never_closed:
  "map_option trace
     (crashed (respond_slowly 5 4242 ''peer'' 80 zeros
        (fresh [100, 100] [Readable] [Bytes long_request] []))) =
   Some [Clock 100, Lookup, Info Connected, Nonblock, Clock 100, Select 5,
     Recv long_request, Info (Received 516)] \<and>
   map_option (\<lambda>w. count_list (trace w) Shutdown + count_list (trace w) Close +
       count_list (trace w) (Info Closed))
     (crashed (respond_slowly 5 4242 ''peer'' 80 zeros
        (fresh [100, 100] [Readable] [Bytes long_request] []))) = Some 0"
  by (simp add: long_request_crashes)

text \<open>
  C1 fails on the code for a peer that has been taken for an HTTP client. The peer sends a
  request line and closes one second later, four seconds before the delay of five
  seconds is over; the status line and the \<^verbatim>\<open>Content-Type\<close> line are written all
  the same, since line 162 does not look at \<^verbatim>\<open>eof\<close>.
\<close>

theorem C1_http_peer_that_closes_is_answered:
  "map_option (sent_bytes \<circ> trace)
     (returned (respond_slowly 5 4242 ''peer'' 80 zeros
        (fresh [100, 100, 101] [Readable, Readable] [Bytes (''GET / '' @ http11), Bytes []] []))) =
   Some (status503 @ content_type)"
  by (simp add: run_defs returned_def sent_bytes_def upt_conv_Cons)

section \<open>The draining loop\<close>

lemma sleeps_append [simp]: "sleeps (xs @ ys) = sleeps xs @ sleeps ys"
  by (simp add: sleeps_def)

lemma sleeps_simps [simp]:
  "sleeps [] = []"
  "sleeps (Sleep s # evs) = s # sleeps evs"
  "sleeps (Clock t # evs) = sleeps evs"
  "sleeps (Lookup # evs) = sleeps evs"
  "sleeps (Info m # evs) = sleeps evs"
  "sleeps (Error m # evs) = sleeps evs"
  "sleeps (Select r # evs) = sleeps evs"
  "sleeps (Nonblock # evs) = sleeps evs"
  "sleeps (Drained rr # evs) = sleeps evs"
  "sleeps (Sent bs # evs) = sleeps evs"
  "sleeps (Recv bs # evs) = sleeps evs"
  "sleeps (Shutdown # evs) = sleeps evs"
  "sleeps (Close # evs) = sleeps evs"
  by (simp_all add: sleeps_def)

lemma to_int32_near: "near d t \<Longrightarrow> to_int32 (d - t) = d - t"
  by (simp add: near_def to_int32_def)

lemma drain_iter_cases:
  obtains
    (eof) w1 where "\<not> eof c" "drain_iter r c w = Break (c\<lparr>eof := True\<rparr>, w1)"
      "trace w1 = trace w @ [Drained (Bytes []), Info LogEof]" "\<exists>rs. reads w = Bytes [] # rs"
  | (nap) c1 w1 evs where "drain_iter r c w = Continue (c1, w1)"
      "trace w1 = trace w @ evs @ [Info (Remaining r), Sleep (min 10 r)]"
      "(eof c \<and> evs = []) \<or> (\<not> eof c \<and> (\<exists>rr. evs = [Drained rr] \<and> rr \<noteq> Bytes []))"
      "eof c1 = eof c"
      "\<not> (\<exists>rs. reads w = Bytes [] # rs) \<or> eof c"
proof (cases "eof c")
  case True
  then show thesis
    by (intro nap [of c "nap r w" "[]"]) (simp_all add: drain_iter_def nap_def emit_def min_def)
next
  case False
  obtain rr w0 where rc: "read_call BUFSZ w = (rr, w0)"
    by (cases "read_call BUFSZ w")
  note fr = read_call_frame [OF rc]
  show thesis
  proof (cases rr)
    case (ReadErr e)
    with rc have nb: "\<not> (\<exists>rs. reads w = Bytes [] # rs)"
      by (auto simp: read_call_def split: list.splits read_result.splits)
    from ReadErr rc False fr nb show thesis
      by (intro nap [of c "nap r (emit (Drained (ReadErr e)) w0)" "[Drained (ReadErr e)]"])
        (simp_all add: drain_iter_def nap_def emit_def min_def)
  next
    case (Bytes bs)
    show thesis
    proof (cases "bs = []")
      case True
      with Bytes rc have "\<exists>rs. reads w = Bytes [] # rs"
        by (auto simp: read_call_def BUFSZ_def split: list.splits read_result.splits)
      with True Bytes rc False fr show thesis
        by (intro eof [of "emit (Info LogEof) (emit (Drained (Bytes [])) w0)"])
          (simp_all add: drain_iter_def emit_def)
    next
      case ne: False
      with Bytes rc have nb: "\<not> (\<exists>rs. reads w = Bytes [] # rs)"
        by (auto simp: read_call_def split: list.splits read_result.splits)
      from ne Bytes rc False fr nb show thesis
        by (intro nap [of "c\<lparr>buf := store 0 bs (buf c)\<rparr>"
              "nap r (emit (Drained (Bytes bs)) w0)" "[Drained (Bytes bs)]"])
          (simp_all add: drain_iter_def nap_def emit_def min_def)
    qed
  qed
qed

lemma drain_iter_failing:
  assumes "\<not> eof c" "failing_reads (reads w)"
  shows "\<exists>e w1. drain_iter r c w = Continue (c, w1) \<and>
    trace w1 = trace w @ [Drained (ReadErr e), Info (Remaining r), Sleep (min 10 r)] \<and>
    failing_reads (reads w1) \<and> clock w1 = clock w \<and> writes w1 = writes w"
proof (cases "reads w")
  case Nil
  with assms show ?thesis
    by (simp add: drain_iter_def read_call_def nap_def emit_def min_def)
next
  case (Cons rr rs)
  with assms(2) obtain e where "rr = ReadErr e" "failing_reads rs"
    by (cases rr) (auto simp: failing_reads_def)
  with Cons assms show ?thesis
    by (simp add: drain_iter_def read_call_def nap_def emit_def min_def)
qed

lemma drain_loop_failing:
  assumes run: "drain_loop d c w = Some (c', w')" and ne: "\<not> eof c"
    and fl: "failing_reads (reads w)"
  shows "c' = c \<and> writes w' = writes w \<and>
    (\<exists>D pre a. trace w' = trace w @ D \<and> list_all draining_event D \<and>
       sleeps D = map (\<lambda>t. min 10 (to_int32 (d - t))) pre \<and>
       clock w = pre @ a # clock w' \<and> (\<forall>t \<in> set pre. \<not> expired d t) \<and> expired d a)"
proof (rule drain_loop_rule [OF run,
    where I = "\<lambda>k v. k = c \<and> failing_reads (reads v) \<and> writes v = writes w \<and>
      (\<exists>D pre. trace v = trace w @ D \<and> list_all draining_event D \<and>
         sleeps D = map (\<lambda>t. min 10 (to_int32 (d - t))) pre \<and>
         clock w = pre @ clock v \<and> (\<forall>t \<in> set pre. \<not> expired d t))"
    and J = "\<lambda>t k v. k = c \<and> failing_reads (reads v) \<and> writes v = writes w \<and>
      (\<exists>D pre. trace v = trace w @ D \<and> list_all draining_event D \<and>
         sleeps D = map (\<lambda>t. min 10 (to_int32 (d - t))) pre \<and>
         clock w = pre @ t # clock v \<and> (\<forall>t \<in> set pre. \<not> expired d t))"], goal_cases)
  case 1
  have "trace w = trace w @ [] \<and> list_all draining_event [] \<and>
      sleeps [] = map (\<lambda>t. min 10 (to_int32 (d - t))) [] \<and> clock w = [] @ clock w \<and>
      (\<forall>t \<in> set []. \<not> expired d t)"
    by simp
  with fl show ?case
    by blast
next
  case (2 k v t v1)
  then obtain D pre where a: "k = c" "failing_reads (reads v)" "writes v = writes w"
    "trace v = trace w @ D" "list_all draining_event D"
    "sleeps D = map (\<lambda>t. min 10 (to_int32 (d - t))) pre" "clock w = pre @ clock v"
    "\<forall>t \<in> set pre. \<not> expired d t"
    by blast
  note fr = time_call_frame [OF 2(2)]
  from a fr have "trace v1 = trace w @ (D @ [Clock t]) \<and> list_all draining_event (D @ [Clock t]) \<and>
      sleeps (D @ [Clock t]) = map (\<lambda>t. min 10 (to_int32 (d - t))) pre \<and>
      clock w = pre @ t # clock v1 \<and> (\<forall>t \<in> set pre. \<not> expired d t)"
    by simp
  with a(1-3) fr show ?case
    by (metis (no_types, lifting))
next
  case (3 k v t)
  then show ?case
    by (auto simp: expired_def)
next
  case (4 k v t c1 v1)
  then obtain D pre where a: "k = c" "failing_reads (reads v)" "writes v = writes w"
    "trace v = trace w @ D" "list_all draining_event D"
    "sleeps D = map (\<lambda>t. min 10 (to_int32 (d - t))) pre" "clock w = pre @ t # clock v"
    "\<forall>t \<in> set pre. \<not> expired d t"
    by blast
  from drain_iter_failing [OF ne a(2), of "to_int32 (d - t)"] 4(3) a(1)
  obtain e where b: "c1 = c" "trace v1 = trace v @
      [Drained (ReadErr e), Info (Remaining (to_int32 (d - t))), Sleep (min 10 (to_int32 (d - t)))]"
    "failing_reads (reads v1)" "clock v1 = clock v" "writes v1 = writes v"
    by auto
  let ?D = "D @ [Drained (ReadErr e), Info (Remaining (to_int32 (d - t))),
      Sleep (min 10 (to_int32 (d - t)))]"
  from a b 4(2) have "trace v1 = trace w @ ?D \<and> list_all draining_event ?D \<and>
      sleeps ?D = map (\<lambda>t. min 10 (to_int32 (d - t))) (pre @ [t]) \<and>
      clock w = (pre @ [t]) @ clock v1 \<and> (\<forall>u \<in> set (pre @ [t]). \<not> expired d u)"
    by (simp add: expired_def)
  with b(1,3,5) a(3) show ?case
    by (metis (no_types, lifting))
next
  case (5 k v t c1 v1)
  with drain_iter_failing [OF ne, of v "to_int32 (d - t)"] show ?case
    by auto
qed

lemma drain_loop_failing_run:
  assumes "\<not> eof c" "failing_reads (reads w)" "clock w = sl @ a # rest"
    "\<forall>t \<in> set sl. \<not> expired d t" "expired d a"
  shows "\<exists>D w'. drain_loop d c w = Some (c, w') \<and> trace w' = trace w @ D @ [Clock a] \<and>
    list_all draining_event D \<and> sleeps D = map (\<lambda>t. min 10 (to_int32 (d - t))) sl \<and>
    clock w' = rest \<and> writes w' = writes w"
  using assms
proof (induction sl arbitrary: w)
  case Nil
  then have cw: "clock w = a # rest" and ex: "to_int32 (d - a) \<le> 0"
    by (simp_all add: expired_def)
  from drain_loop_expired [OF cw ex, of c]
  show ?case
    by (intro exI [of _ "[]"] exI [of _ "w\<lparr>clock := rest, trace := trace w @ [Clock a]\<rparr>"])
      simp
next
  case (Cons t sl)
  then have cw: "clock w = t # (sl @ a # rest)" and live: "0 < to_int32 (d - t)"
    by (simp_all add: expired_def)
  let ?w0 = "w\<lparr>clock := sl @ a # rest, trace := trace w @ [Clock t]\<rparr>"
  from Cons.prems(2) have "failing_reads (reads ?w0)"
    by simp
  from drain_iter_failing [OF Cons.prems(1) this, of "to_int32 (d - t)"] obtain e w1
    where w1: "drain_iter (to_int32 (d - t)) c ?w0 = Continue (c, w1)"
      "trace w1 = trace ?w0 @
        [Drained (ReadErr e), Info (Remaining (to_int32 (d - t))), Sleep (min 10 (to_int32 (d - t)))]"
      "failing_reads (reads w1)" "clock w1 = clock ?w0" "writes w1 = writes ?w0"
    by blast
  from w1(4) have c1: "clock w1 = sl @ a # rest"
    by simp
  from Cons.prems(4) have "\<forall>t \<in> set sl. \<not> expired d t"
    by simp
  from Cons.IH [OF Cons.prems(1) w1(3) c1 this Cons.prems(5)] obtain D w'
    where D: "drain_loop d c w1 = Some (c, w')" "trace w' = trace w1 @ D @ [Clock a]"
      "list_all draining_event D" "sleeps D = map (\<lambda>t. min 10 (to_int32 (d - t))) sl"
      "clock w' = rest" "writes w' = writes w1"
    by blast
  let ?D = "[Clock t, Drained (ReadErr e), Info (Remaining (to_int32 (d - t))),
      Sleep (min 10 (to_int32 (d - t)))] @ D"
  from drain_loop_live [OF cw live, of c] w1(1) D(1)
  have "drain_loop d c w = Some (c, w')"
    by simp
  moreover from D(2) w1(2) have "trace w' = trace w @ ?D @ [Clock a]"
    by simp
  moreover from D(3) have "list_all draining_event ?D"
    by simp
  moreover from D(4) have "sleeps ?D = map (\<lambda>t. min 10 (to_int32 (d - t))) (t # sl)"
    by simp
  moreover from D(6) w1(5) have "writes w' = writes w"
    by simp
  ultimately show ?case
    using D(5) by blast
qed

text \<open>
  C10. In the draining loop a \<^verbatim>\<open>read\<close> that fails, with whatever \<^verbatim>\<open>errno\<close>, is
  not looked at: the turn logs the time remaining and sleeps (first part). A turn leaves
  the loop early exactly when \<^verbatim>\<open>read\<close> returns 0 (second part). So when every
  \<^verbatim>\<open>read\<close> fails, the loop sleeps at every clock reading before the deadline,
  \<open>min 10 remaining\<close> seconds each time, it ends at the first reading at which the delay
  is over, and then the last part of the answer is written: the trace ends with the
  events of that \<^verbatim>\<open>writestr\<close> (third part). And the draining does come to this end
  when the script of the clock holds a reading at which the delay is over: with the
  readings \<open>sl\<close> before the deadline and then the reading \<open>a\<close> at or after it, the
  loop sleeps once for each of \<open>sl\<close>, returns at \<open>a\<close>, and \<^verbatim>\<open>writestr\<close> is called
  (fourth part).
\<close>

theorem C10_drain_ignores_read_errors:
  "(\<not> eof c \<and> reads w = ReadErr e # rs \<longrightarrow>
      drain_iter r c w =
        Continue (c, nap r (emit (Drained (ReadErr e)) (w\<lparr>reads := rs\<rparr>)))) \<and>
   ((\<exists>s. drain_iter r c w = Break s) \<longleftrightarrow> \<not> eof c \<and> (\<exists>rs. reads w = Bytes [] # rs)) \<and>
   (\<not> eof c \<and> failing_reads (reads w) \<and> drain_and_respond d c w = Some w' \<longrightarrow>
      (\<exists>D pre a rest. clock w = pre @ a # rest \<and> (\<forall>t \<in> set pre. \<not> expired d t) \<and>
         expired d a \<and> list_all draining_event D \<and>
         sleeps D = map (\<lambda>t. min 10 (to_int32 (d - t))) pre \<and>
         trace w' = trace w @ D @
           snd (snd (writestr_loop (if http c then content_length else hello) (writes w))))) \<and>
   (\<not> eof c \<and> failing_reads (reads w) \<and> clock w = sl @ a # rest \<and>
    (\<forall>t \<in> set sl. \<not> expired d t) \<and> expired d a \<longrightarrow>
      (\<exists>v D. drain_and_respond d c w = Some v \<and> list_all draining_event D \<and>
         sleeps D = map (\<lambda>t. min 10 (to_int32 (d - t))) sl \<and> clock v = rest \<and>
         trace v = trace w @ D @
           snd (snd (writestr_loop (if http c then content_length else hello) (writes w)))))"
proof (intro conjI impI)
  assume "\<not> eof c \<and> reads w = ReadErr e # rs"
  then show "drain_iter r c w =
      Continue (c, nap r (emit (Drained (ReadErr e)) (w\<lparr>reads := rs\<rparr>)))"
    by (simp add: drain_iter_def read_call_def)
next
  show "(\<exists>s. drain_iter r c w = Break s) \<longleftrightarrow> \<not> eof c \<and> (\<exists>rs. reads w = Bytes [] # rs)"
    by (rule drain_iter_cases [of c r w]) auto
next
  assume a: "\<not> eof c \<and> failing_reads (reads w) \<and> drain_and_respond d c w = Some w'"
  then obtain c1 w1 where dl: "drain_loop d c w = Some (c1, w1)"
    by (auto simp: drain_and_respond_def split: option.splits)
  from drain_loop_failing [OF dl] a obtain D pre a'
    where b: "c1 = c" "writes w1 = writes w" "trace w1 = trace w @ D" "list_all draining_event D"
      "sleeps D = map (\<lambda>t. min 10 (to_int32 (d - t))) pre" "clock w = pre @ a' # clock w1"
      "\<forall>t \<in> set pre. \<not> expired d t" "expired d a'"
    by blast
  let ?s = "if http c then content_length else hello"
  from a dl b(1) have "w' = snd (writestr ?s w1)"
    by (auto simp: drain_and_respond_def)
  then have "trace w' = trace w1 @ snd (snd (writestr_loop ?s (writes w1)))"
    by (simp add: writestr_def split: prod.splits)
  with b have "trace w' = trace w @ D @ snd (snd (writestr_loop ?s (writes w)))"
    by simp
  with b show "\<exists>D pre a rest. clock w = pre @ a # rest \<and> (\<forall>t \<in> set pre. \<not> expired d t) \<and>
         expired d a \<and> list_all draining_event D \<and>
         sleeps D = map (\<lambda>t. min 10 (to_int32 (d - t))) pre \<and>
         trace w' = trace w @ D @
           snd (snd (writestr_loop (if http c then content_length else hello) (writes w)))"
    by blast
next
  assume a: "\<not> eof c \<and> failing_reads (reads w) \<and> clock w = sl @ a # rest \<and>
    (\<forall>t \<in> set sl. \<not> expired d t) \<and> expired d a"
  with drain_loop_failing_run [of c w sl a rest d] obtain D0 w1
    where D0: "drain_loop d c w = Some (c, w1)" "trace w1 = trace w @ D0 @ [Clock a]"
      "list_all draining_event D0" "sleeps D0 = map (\<lambda>t. min 10 (to_int32 (d - t))) sl"
      "clock w1 = rest" "writes w1 = writes w"
    by blast
  define D where "D = D0 @ [Clock a]"
  with D0 have D: "drain_loop d c w = Some (c, w1)" "trace w1 = trace w @ D"
      "list_all draining_event D" "sleeps D = map (\<lambda>t. min 10 (to_int32 (d - t))) sl"
      "clock w1 = rest" "writes w1 = writes w"
    by simp_all
  let ?s = "if http c then content_length else hello"
  let ?v = "snd (writestr ?s w1)"
  from a D(1) have "drain_and_respond d c w = Some ?v"
    by (auto simp: drain_and_respond_def)
  moreover have "trace ?v = trace w1 @ snd (snd (writestr_loop ?s (writes w1)))"
    "clock ?v = clock w1"
    by (simp_all add: writestr_def split: prod.splits)
  ultimately show "\<exists>v D. drain_and_respond d c w = Some v \<and> list_all draining_event D \<and>
         sleeps D = map (\<lambda>t. min 10 (to_int32 (d - t))) sl \<and> clock v = rest \<and>
         trace v = trace w @ D @
           snd (snd (writestr_loop (if http c then content_length else hello) (writes w)))"
    using D by auto
qed

theorem C10_drain_ignores_read_errors_witness:
  "\<exists>v D. drain_and_respond 105 (conn0 4242 ''peer:80'' zeros)
       (fresh [100, 103, 105] [] [ReadErr ECONNRESET] []) = Some v \<and>
     list_all draining_event D \<and> sleeps D = [5, 2] \<and> clock v = [] \<and>
     trace v = D @ [Sent hello]"
proof -
  let ?w = "fresh [100, 103, 105] [] [ReadErr ECONNRESET] []"
  let ?c = "conn0 4242 ''peer:80'' zeros"
  have h: "\<not> eof ?c" "failing_reads (reads ?w)" "\<not> http ?c"
    "clock ?w = [100, 103] @ 105 # []" "trace ?w = []" "writes ?w = []"
    "\<forall>t \<in> set [100, 103]. \<not> expired 105 t" "expired 105 105"
    "map (\<lambda>t. min 10 (to_int32 (105 - t))) [100, 103] = [5, 2]"
    by (simp_all add: conn0_def fresh_def failing_reads_def expired_def to_int32_def)
  from C10_drain_ignores_read_errors [of ?c ?w EIO "[]" 5 105 ?w "[100, 103]" 105 "[]"] h
  show ?thesis
    by (simp add: hello_def)
qed


section \<open>C8\<close>

lemma timeouts_append [simp]: "timeouts (xs @ ys) = timeouts xs @ timeouts ys"
  by (simp add: timeouts_def)

lemma timeouts_simps [simp]:
  "timeouts [] = []"
  "timeouts (Select r # evs) = r # timeouts evs"
  "timeouts (Clock t # evs) = timeouts evs"
  "timeouts (Lookup # evs) = timeouts evs"
  "timeouts (Info m # evs) = timeouts evs"
  "timeouts (Error m # evs) = timeouts evs"
  "timeouts (Sleep s # evs) = timeouts evs"
  "timeouts (Nonblock # evs) = timeouts evs"
  "timeouts (Drained rr # evs) = timeouts evs"
  "timeouts (Sent bs # evs) = timeouts evs"
  "timeouts (Recv bs # evs) = timeouts evs"
  "timeouts (Shutdown # evs) = timeouts evs"
  "timeouts (Close # evs) = timeouts evs"
  by (simp_all add: timeouts_def)

lemma drains_append [simp]: "drains (xs @ ys) = drains xs @ drains ys"
  by (simp add: drains_def)

lemma drains_simps [simp]:
  "drains [] = []"
  "drains (Drained rr # evs) = rr # drains evs"
  "drains (Clock t # evs) = drains evs"
  "drains (Lookup # evs) = drains evs"
  "drains (Info m # evs) = drains evs"
  "drains (Error m # evs) = drains evs"
  "drains (Sleep s # evs) = drains evs"
  "drains (Select r # evs) = drains evs"
  "drains (Nonblock # evs) = drains evs"
  "drains (Sent bs # evs) = drains evs"
  "drains (Recv bs # evs) = drains evs"
  "drains (Shutdown # evs) = drains evs"
  "drains (Close # evs) = drains evs"
  by (simp_all add: drains_def)




subsection \<open>The time spent waiting\<close>



lemma sleeps_plain: "list_all plain_event xs \<Longrightarrow> sleeps xs = []"
proof (induction xs)
  case Nil
  show ?case by simp
next
  case (Cons e xs)
  then show ?case by (cases e) simp_all
qed






lemma near_expired: "near d t \<Longrightarrow> expired d t \<longleftrightarrow> \<not> t < d"
  by (auto simp: expired_def to_int32_near)









section \<open>C3\<close>












section \<open>C2\<close>






section \<open>Properties of main\<close>

lemma dash_minus1: "dash ''-1''"
  by (simp add: dash_def)

lemma parse_args_no_usage: "parse_args as s p d = Inl m \<Longrightarrow> m \<noteq> Usage"
  by (induction as arbitrary: s p d) (auto split: if_splits)

lemma parse_args_Inr:
  "(p = None \<longrightarrow> d = None) \<Longrightarrow>
   (\<exists>r. parse_args as s p d = Inr r) \<longleftrightarrow>
     (known_options as \<and> length (pre p d @ positionals as) \<le> 2)"
proof (induction as arbitrary: s p d)
  case Nil
  then show ?case
    by (auto simp: known_options_def positionals_def pre_def split: option.splits)
next
  case (Cons a as)
  show ?case
  proof (cases "a = ''-1''")
    case True
    with Cons show ?thesis
      by (simp add: known_options_def positionals_def dash_minus1)
  next
    case False
    show ?thesis
    proof (cases "dash a")
      case True
      with False show ?thesis
        by (simp add: known_options_def)
    next
      case nd: False
      with False Cons.prems Cons.IH [of "Some a" d s] Cons.IH [of p "Some a" s]
      show ?thesis
        by (cases p; cases d) (auto simp: known_options_def positionals_def pre_def)
    qed
  qed
qed

lemma parse_args_result:
  "(p = None \<longrightarrow> d = None) \<Longrightarrow> parse_args as s p d = Inr (s', p', d') \<Longrightarrow>
   s' = (s \<or> ''-1'' \<in> set as) \<and> pre p' d' = pre p d @ positionals as"
proof (induction as arbitrary: s p d)
  case Nil
  then show ?case
    by (auto simp: positionals_def)
next
  case (Cons a as)
  show ?case
  proof (cases "a = ''-1''")
    case True
    with Cons.prems Cons.IH [of p d True] show ?thesis
      by (auto simp: positionals_def dash_minus1)
  next
    case False
    show ?thesis
    proof (cases "dash a")
      case True
      with False Cons.prems show ?thesis
        by simp
    next
      case nd: False
      with False Cons.prems Cons.IH [of "Some a" d s] Cons.IH [of p "Some a" s]
      show ?thesis
        by (cases p; cases d) (auto simp: positionals_def pre_def split: if_splits)
    qed
  qed
qed

lemma pre_None: "pre None d = []"
  by (simp add: pre_def)

text \<open>
  C9, as the code has it. \<^verbatim>\<open>main\<close> calls \<^verbatim>\<open>server()\<close> exactly when every argument
  that starts with \<^verbatim>\<open>-\<close> is \<^verbatim>\<open>-1\<close>, there are exactly two other arguments, and
  \<^verbatim>\<open>atoi\<close> of each is positive; the port and the delay are those two values and the
  single-client flag says whether \<^verbatim>\<open>-1\<close> was given. In every other case the process
  exits with status 1 after one message: the usage text when the options are known and
  there are at most two positional arguments (one is missing, or a value is not
  positive), a diagnostic of its own otherwise.
\<close>

theorem C9_main_outcome:
  "(main argv = Served p d single \<longleftrightarrow>
      known_options (tl argv) \<and>
      (\<exists>port delay. positionals (tl argv) = [port, delay] \<and> p = atoi port \<and> d = atoi delay) \<and>
      0 < p \<and> 0 < d \<and> single = (''-1'' \<in> set (tl argv))) \<and>
   ((\<forall>p d s. main argv \<noteq> Served p d s) \<longrightarrow>
      (\<exists>m. main argv = Exited 1 [m] \<and>
           (m = Usage \<longleftrightarrow> known_options (tl argv) \<and> length (positionals (tl argv)) \<le> 2)))"
proof (cases "parse_args (tl argv) False None None")
  case (Inl m)
  then have "m \<noteq> Usage"
    by (rule parse_args_no_usage)
  moreover from Inl parse_args_Inr [of None None "tl argv" False]
  have "\<not> (known_options (tl argv) \<and> length (positionals (tl argv)) \<le> 2)"
    by (simp add: pre_None)
  ultimately show ?thesis
    using Inl by (auto simp: main_def)
next
  case (Inr r)
  obtain s' p' d' where r: "r = (s', p', d')"
    by (cases r) auto
  from Inr r parse_args_result [of None None "tl argv" False s' p' d']
  have res: "s' = (''-1'' \<in> set (tl argv))" "pre p' d' = positionals (tl argv)"
    by (simp_all add: pre_None)
  from Inr have "\<exists>r. parse_args (tl argv) False None None = Inr r"
    by blast
  with parse_args_Inr [of None None "tl argv" False]
  have ok: "known_options (tl argv)" "length (positionals (tl argv)) \<le> 2"
    by (simp_all add: pre_None)
  show ?thesis
  proof (cases p')
    case None
    with Inr r res ok show ?thesis
      by (auto simp: main_def pre_def)
  next
    case (Some port)
    show ?thesis
    proof (cases d')
      case None
      with Some Inr r res ok show ?thesis
        by (auto simp: main_def pre_def)
    next
      case (Some delay)
      with \<open>p' = Some port\<close> res have pos: "positionals (tl argv) = [port, delay]"
        by (simp add: pre_def)
      with Some \<open>p' = Some port\<close> Inr r res(1) ok show ?thesis
        by (auto simp: main_def Let_def)
    qed
  qed
qed

theorem C9_main_outcome_witness:
  "main [''unresponsive'', ''-1'', ''8080'', ''30''] = Served 8080 30 True \<and>
   main [''unresponsive'', ''8080''] = Exited 1 [Usage] \<and>
   main [''unresponsive'', ''-x'', ''8080'', ''30''] = Exited 1 [Unrecognized ''-x'']"
proof -
  have a: "main [''unresponsive'', ''-1'', ''8080'', ''30''] = Served 8080 30 True"
    using C9_main_outcome [of "[''unresponsive'', ''-1'', ''8080'', ''30'']" 8080 30 True]
    by (simp add: known_options_def positionals_def dash_def atoi_def strtol_def isspace_def
        isdigit_def to_int32_def)
  have b: "main [''unresponsive'', ''8080''] = Exited 1 [Usage]"
    by (simp add: main_def dash_def)
  have c: "main [''unresponsive'', ''-x'', ''8080'', ''30''] = Exited 1 [Unrecognized ''-x'']"
    by (simp add: main_def dash_def)
  from a b c show ?thesis
    by simp
qed

text \<open>
  C9 as the spec words it fails: \<^verbatim>\<open>80x\<close> is not a number, and the server runs on port
  80 all the same, because \<^verbatim>\<open>atoi\<close> reads the leading digits and ignores the rest.
\<close>

theorem C9_trailing_garbage_counterexample:
  "\<not> spec_positive_integer ''80x'' \<and>
   main [''unresponsive'', ''80x'', ''5''] = Served 80 5 False"
  by (simp add: spec_positive_integer_def main_def dash_def atoi_def strtol_def isspace_def
      isdigit_def to_int32_def)

end
